theory Spec2Isabelle
  imports Main "HOL-Library.Word"
begin

section \<open>Values of the Go program\<close>

text \<open>
  The file \<^verbatim>\<open>future.go\<close> of package \<^verbatim>\<open>promise\<close> is embedded as functions on an explicit
  program state. One call of a method runs from its first to its last statement without
  another goroutine writing the same Future in between; the atomic operations of
  \<^verbatim>\<open>sync/atomic\<close> are kept as operations of their own, and a \<^verbatim>\<open>for { ... }\<close> loop is a partial
  function whose value \<open>None\<close> means that the call does not return.
\<close>

text \<open>A value of type \<^verbatim>\<open>interface{}\<close> that is carried as a payload.\<close>

datatype any = ANil | AInt int | AString string | AError string

text \<open>
  Function values. Go can only call a function value or compare it with \<^verbatim>\<open>nil\<close>, so a
  non-nil function value is a name; calling it is recorded in the state (see \<open>calls\<close>
  below). The nil function of a type is \<open>None\<close> at type \<open>funcV option\<close> and so on. A
  \<^verbatim>\<open>func(v interface{}) *Future\<close> also carries the pointer it returns for each argument.
\<close>

datatype funcV = FuncV nat \<comment> \<open>\<^verbatim>\<open>func(v interface{})\<close>\<close>

datatype func0 = Func0 nat \<comment> \<open>\<^verbatim>\<open>func()\<close>\<close>

datatype task = Task nat "any \<Rightarrow> nat option" \<comment> \<open>\<^verbatim>\<open>func(v interface{}) *Future\<close>\<close>

datatype callbackType = CALLBACK_DONE | CALLBACK_FAIL | CALLBACK_ALWAYS | CALLBACK_CANCEL

text \<open>
  Modelled from the spec: the declarations of \<^verbatim>\<open>PromiseResult\<close> and of the result kinds
  \<^verbatim>\<open>RESULT_SUCCESS\<close>, \<^verbatim>\<open>RESULT_FAILURE\<close>, \<^verbatim>\<open>RESULT_CANCELLED\<close> are not in \<^verbatim>\<open>future.go\<close>. The
  spec's Result has a kind among Success, Failure, Cancelled and a payload; the field
  names \<^verbatim>\<open>Typ\<close> and \<^verbatim>\<open>Result\<close> are the ones \<^verbatim>\<open>future.go\<close> reads.
\<close>

datatype resultType = RESULT_SUCCESS | RESULT_FAILURE | RESULT_CANCELLED

record PromiseResult =
  Result :: any
  Typ :: resultType

text \<open>
  Modelled from the spec: the declaration of \<^verbatim>\<open>Promise\<close> is not in \<^verbatim>\<open>future.go\<close>. A Promise
  owns one Future; \<^verbatim>\<open>future.go\<close> reaches it as \<^verbatim>\<open>pipePromise.Future\<close>. A pointer to a
  Future is \<open>None\<close> for \<^verbatim>\<open>nil\<close> and \<open>Some a\<close> for the object at address \<open>a\<close>.
\<close>

record Promise =
  Future :: "nat option"

text \<open>
  \<^verbatim>\<open>type pipe struct\<close>. A \<^verbatim>\<open>*Promise\<close> is \<open>None\<close> for \<^verbatim>\<open>nil\<close>; the Promise it points to is
  never written after its creation, so it is held by value. The same holds for the
  \<^verbatim>\<open>*pipe\<close> elements of \<^verbatim>\<open>futureVal.pipes\<close>.
\<close>

record pipe =
  pipeDoneTask :: "task option"
  pipeFailTask :: "task option"
  pipePromise :: "Promise option"

definition getPipe :: "pipe \<Rightarrow> bool \<Rightarrow> task option \<times> Promise option" where
  "getPipe this isResolved =
     (if isResolved then (pipeDoneTask this, pipePromise this)
      else (pipeFailTask this, pipePromise this))"

text \<open>
  \<^verbatim>\<open>type futureVal struct\<close>: the snapshot. Field \<^verbatim>\<open>r\<close> is a pointer to a PromiseResult
  that is never written after its creation: \<open>None\<close> is \<^verbatim>\<open>nil\<close> (pending), \<open>Some res\<close> a
  settled Future.
\<close>

record futureVal =
  dones :: "funcV option list"
  fails :: "funcV option list"
  always :: "funcV option list"
  cancels :: "func0 option list"
  pipes :: "pipe list"
  r :: "PromiseResult option"

text \<open>
  A channel as one goroutine sees it: the values waiting in it and whether it has been
  closed.
\<close>

record 'a chan =
  buf :: "'a list"
  closed :: bool

text \<open>
  \<^verbatim>\<open>type Future struct\<close>. Field \<^verbatim>\<open>val\<close> is the pointer to the current futureVal, an
  address in the store of snapshots; \<^verbatim>\<open>cancelStatus\<close> is an \<^verbatim>\<open>int32\<close>.
\<close>

record Future =
  Id_ :: int
  chOut :: "PromiseResult option chan"
  chEnd :: "unit chan"
  val :: "nat option"
  cancelStatus :: "32 word"

text \<open>
  What a call leaves behind that the program state does not hold: a call of a function
  value with its argument, and the timer armed by \<^verbatim>\<open>time.After\<close> with its duration in
  nanoseconds.
\<close>

datatype event =
  Call_funcV funcV any
  | Call_func0 func0
  | Call_task nat any
  | Time_After "64 word"

text \<open>
  The program state: the Future objects and the futureVal objects by address (an
  address is an index; an allocation takes the next index, so it is fresh), and the
  events so far, oldest first.
\<close>

record state =
  futures :: "Future list"
  futureVals :: "futureVal list"
  calls :: "event list"

text \<open>
  A run-time panic: the nil pointer dereference of the Go run time, a failed type
  assertion of the single-value form, or \<^verbatim>\<open>panic(errors.New(msg))\<close>.
\<close>

datatype error = NilDereference | InterfaceConversion | Panic string

text \<open>One pass through the body of a \<^verbatim>\<open>for { ... }\<close> loop ends the loop or starts the next pass.\<close>

datatype ('r, 'l) iter = Break 'r | Continue 'l

partial_function (option) for_loop :: "('l \<Rightarrow> ('r, 'l) iter) \<Rightarrow> 'l \<Rightarrow> 'r option" where
  "for_loop body l = (case body l of Break res \<Rightarrow> Some res | Continue l' \<Rightarrow> for_loop body l')"

section \<open>Pointers and atomic operations\<close>

definition deref_Future :: "nat option \<Rightarrow> state \<Rightarrow> error + Future" where
  "deref_Future p s =
     (case p of
        None \<Rightarrow> Inl NilDereference
      | Some a \<Rightarrow> if a < length (futures s) then Inr (futures s ! a) else Inl NilDereference)"

definition deref_futureVal :: "nat option \<Rightarrow> state \<Rightarrow> error + futureVal" where
  "deref_futureVal p s =
     (case p of
        None \<Rightarrow> Inl NilDereference
      | Some a \<Rightarrow> if a < length (futureVals s) then Inr (futureVals s ! a) else Inl NilDereference)"

text \<open>Writing one field of the Future at an address.\<close>

definition store_Future :: "nat \<Rightarrow> Future \<Rightarrow> state \<Rightarrow> state" where
  "store_Future a f s = s\<lparr>futures := (futures s)[a := f]\<rparr>"

text \<open>\<^verbatim>\<open>&newVal\<close>: the local variable escapes to the heap, at a fresh address.\<close>

definition new_futureVal :: "futureVal \<Rightarrow> state \<Rightarrow> nat option \<times> state" where
  "new_futureVal v s = (Some (length (futureVals s)), s\<lparr>futureVals := futureVals s @ [v]\<rparr>)"

text \<open>\<^verbatim>\<open>atomic.LoadPointer(&this.val)\<close>\<close>

definition LoadPointer_val :: "nat option \<Rightarrow> state \<Rightarrow> error + nat option" where
  "LoadPointer_val this s =
     (case deref_Future this s of Inl e \<Rightarrow> Inl e | Inr f \<Rightarrow> Inr (val f))"

text \<open>\<^verbatim>\<open>atomic.CompareAndSwapPointer(&this.val, old, new)\<close>\<close>

definition CompareAndSwapPointer_val ::
  "nat option \<Rightarrow> nat option \<Rightarrow> nat option \<Rightarrow> state \<Rightarrow> (error + bool) \<times> state" where
  "CompareAndSwapPointer_val this old new s =
     (case this of
        None \<Rightarrow> (Inl NilDereference, s)
      | Some a \<Rightarrow>
          (case deref_Future this s of
             Inl e \<Rightarrow> (Inl e, s)
           | Inr f \<Rightarrow>
               if val f = old then (Inr True, store_Future a (f\<lparr>val := new\<rparr>) s)
               else (Inr False, s)))"

text \<open>\<^verbatim>\<open>atomic.LoadInt32(&this.cancelStatus)\<close>\<close>

definition LoadInt32_cancelStatus :: "nat option \<Rightarrow> state \<Rightarrow> error + 32 word" where
  "LoadInt32_cancelStatus this s =
     (case deref_Future this s of Inl e \<Rightarrow> Inl e | Inr f \<Rightarrow> Inr (cancelStatus f))"

text \<open>\<^verbatim>\<open>atomic.CompareAndSwapInt32(&this.cancelStatus, old, new)\<close>\<close>

definition CompareAndSwapInt32_cancelStatus ::
  "nat option \<Rightarrow> 32 word \<Rightarrow> 32 word \<Rightarrow> state \<Rightarrow> (error + bool) \<times> state" where
  "CompareAndSwapInt32_cancelStatus this old new s =
     (case this of
        None \<Rightarrow> (Inl NilDereference, s)
      | Some a \<Rightarrow>
          (case deref_Future this s of
             Inl e \<Rightarrow> (Inl e, s)
           | Inr f \<Rightarrow>
               if cancelStatus f = old then (Inr True, store_Future a (f\<lparr>cancelStatus := new\<rparr>) s)
               else (Inr False, s)))"

section \<open>Cancellation flag\<close>

definition RequestCancel :: "nat option \<Rightarrow> state \<Rightarrow> (error + bool) \<times> state" where
  "RequestCancel this s =
     (case LoadInt32_cancelStatus this s of
        Inl e \<Rightarrow> (Inl e, s)
      | Inr ccstatus \<Rightarrow>
          if ccstatus = 0 then
            (case CompareAndSwapInt32_cancelStatus this 0 1 s of
               (Inl e, s') \<Rightarrow> (Inl e, s')
             | (Inr swapped, s') \<Rightarrow> (Inr True, s'))
          else (Inr False, s))"

definition IsCancelled :: "nat option \<Rightarrow> state \<Rightarrow> error + bool" where
  "IsCancelled this s =
     (case LoadInt32_cancelStatus this s of
        Inl e \<Rightarrow> Inl e
      | Inr ccstatus \<Rightarrow> Inr (ccstatus = 2))"

section \<open>Creating a Promise\<close>

text \<open>
  Modelled from the spec: \<^verbatim>\<open>NewPromise\<close> is called by \<^verbatim>\<open>Pipe\<close> but is not in \<^verbatim>\<open>future.go\<close>.
  By the spec a Promise and its Future are created together; the new Future is pending
  (no Result), has no callback and no pipe, its cancellation flag is NotRequested (0)
  and its completion signal has not fired. Its identity is opaque; the address is taken.
\<close>

definition empty_futureVal :: futureVal where
  "empty_futureVal = \<lparr>dones = [], fails = [], always = [], cancels = [], pipes = [], r = None\<rparr>"

definition NewPromise :: "state \<Rightarrow> Promise option \<times> state" where
  "NewPromise s =
     (let (vp, s1) = new_futureVal empty_futureVal s;
          a = length (futures s1);
          f = \<lparr>Id_ = int a, chOut = \<lparr>buf = [], closed = False\<rparr>,
               chEnd = \<lparr>buf = [], closed = False\<rparr>, val = vp, cancelStatus = 0\<rparr>
      in (Some \<lparr>Future = Some a\<rparr>, s1\<lparr>futures := futures s1 @ [f]\<rparr>))"

section \<open>Reading the state of a Future\<close>

definition loadVal :: "nat option \<Rightarrow> state \<Rightarrow> error + nat option" where
  "loadVal this s = LoadPointer_val this s"

definition result :: "nat option \<Rightarrow> state \<Rightarrow> error + PromiseResult option" where
  "result this s =
     (case loadVal this s of
        Inl e \<Rightarrow> Inl e
      | Inr v \<Rightarrow> (case deref_futureVal v s of Inl e \<Rightarrow> Inl e | Inr fv \<Rightarrow> Inr (r fv)))"

definition GetChan :: "nat option \<Rightarrow> state \<Rightarrow> error + PromiseResult option chan" where
  "GetChan this s = (case deref_Future this s of Inl e \<Rightarrow> Inl e | Inr f \<Rightarrow> Inr (chOut f))"

text \<open>
  The snapshot a Future points to, when both pointers can be followed. It is the
  observation the theorems below are stated with; the methods do not call it.
\<close>

definition snapshot :: "nat option \<Rightarrow> state \<Rightarrow> futureVal option" where
  "snapshot this s =
     (case loadVal this s of
        Inl e \<Rightarrow> None
      | Inr v \<Rightarrow> (case deref_futureVal v s of Inl e \<Rightarrow> None | Inr fv \<Rightarrow> Some fv))"

section \<open>Registering callbacks\<close>

text \<open>
  The parameter \<^verbatim>\<open>callback interface{}\<close> of \<^verbatim>\<open>addCallback\<close>: the nil interface, or a dynamic
  type with a value of that type. A nil function stored in an interface is not the nil
  interface: it is \<open>Func_v None\<close> or \<open>Func_0 None\<close>, and \<^verbatim>\<open>callback == nil\<close> is false for it.
\<close>

datatype iface =
  Nil_iface
  | Func_v "funcV option"
  | Func_0 "func0 option"
  | Other any

text \<open>The type assertions \<^verbatim>\<open>callback.(func(v interface{}))\<close> and \<^verbatim>\<open>callback.(func())\<close>, single-value form.\<close>

definition assert_funcV :: "iface \<Rightarrow> error + funcV option" where
  "assert_funcV callback = (case callback of Func_v f \<Rightarrow> Inr f | _ \<Rightarrow> Inl InterfaceConversion)"

definition assert_func0 :: "iface \<Rightarrow> error + func0 option" where
  "assert_func0 callback = (case callback of Func_0 f \<Rightarrow> Inr f | _ \<Rightarrow> Inl InterfaceConversion)"

text \<open>The \<^verbatim>\<open>ok\<close> of the same assertions in their two-value form, which never panics.\<close>

definition ok_funcV :: "iface \<Rightarrow> bool" where
  "ok_funcV callback = (case callback of Func_v f \<Rightarrow> True | _ \<Rightarrow> False)"

definition ok_func0 :: "iface \<Rightarrow> bool" where
  "ok_func0 callback = (case callback of Func_0 f \<Rightarrow> True | _ \<Rightarrow> False)"

text \<open>Calling a function value; calling a nil function panics.\<close>

definition call_funcV :: "funcV option \<Rightarrow> any \<Rightarrow> state \<Rightarrow> (error + unit) \<times> state" where
  "call_funcV callbackFunc x s =
     (case callbackFunc of
        None \<Rightarrow> (Inl NilDereference, s)
      | Some f \<Rightarrow> (Inr (), s\<lparr>calls := calls s @ [Call_funcV f x]\<rparr>))"

definition call_func0 :: "func0 option \<Rightarrow> state \<Rightarrow> (error + unit) \<times> state" where
  "call_func0 callbackFunc s =
     (case callbackFunc of
        None \<Rightarrow> (Inl NilDereference, s)
      | Some f \<Rightarrow> (Inr (), s\<lparr>calls := calls s @ [Call_func0 f]\<rparr>))"

definition call_task :: "task option \<Rightarrow> any \<Rightarrow> state \<Rightarrow> (error + nat option) \<times> state" where
  "call_task callbackFunc x s =
     (case callbackFunc of
        None \<Rightarrow> (Inl NilDereference, s)
      | Some (Task n f) \<Rightarrow> (Inr (f x), s\<lparr>calls := calls s @ [Call_task n x]\<rparr>))"

text \<open>The \<^verbatim>\<open>switch t\<close> of \<^verbatim>\<open>addCallback\<close> on the copy \<^verbatim>\<open>newVal := *v\<close>.\<close>

definition append_callback :: "iface \<Rightarrow> callbackType \<Rightarrow> futureVal \<Rightarrow> error + futureVal" where
  "append_callback callback t newVal =
     (case t of
        CALLBACK_DONE \<Rightarrow>
          (case assert_funcV callback of
             Inl e \<Rightarrow> Inl e | Inr f \<Rightarrow> Inr (newVal\<lparr>dones := dones newVal @ [f]\<rparr>))
      | CALLBACK_FAIL \<Rightarrow>
          (case assert_funcV callback of
             Inl e \<Rightarrow> Inl e | Inr f \<Rightarrow> Inr (newVal\<lparr>fails := fails newVal @ [f]\<rparr>))
      | CALLBACK_ALWAYS \<Rightarrow>
          (case assert_funcV callback of
             Inl e \<Rightarrow> Inl e | Inr f \<Rightarrow> Inr (newVal\<lparr>always := always newVal @ [f]\<rparr>))
      | CALLBACK_CANCEL \<Rightarrow>
          (case assert_func0 callback of
             Inl e \<Rightarrow> Inl e | Inr f \<Rightarrow> Inr (newVal\<lparr>cancels := cancels newVal @ [f]\<rparr>)))"

text \<open>The body of the \<^verbatim>\<open>for\<close> loop of \<^verbatim>\<open>addCallback\<close>.\<close>

definition addCallback_iter ::
  "iface \<Rightarrow> callbackType \<Rightarrow> nat option \<Rightarrow> state \<Rightarrow> ((error + unit) \<times> state, state) iter" where
  "addCallback_iter callback t this s =
     (case loadVal this s of
        Inl e \<Rightarrow> Break (Inl e, s)
      | Inr v \<Rightarrow>
     (case deref_futureVal v s of
        Inl e \<Rightarrow> Break (Inl e, s)
      | Inr fv \<Rightarrow>
     (case r fv of
        None \<Rightarrow>
          (case append_callback callback t fv of
             Inl e \<Rightarrow> Break (Inl e, s)
           | Inr newVal \<Rightarrow>
               (case new_futureVal newVal s of
                  (p, s1) \<Rightarrow>
                    (case CompareAndSwapPointer_val this v p s1 of
                       (Inl e, s2) \<Rightarrow> Break (Inl e, s2)
                     | (Inr swapped, s2) \<Rightarrow>
                         if swapped then Break (Inr (), s2) else Continue s2)))
      | Some res \<Rightarrow>
          if (t = CALLBACK_DONE \<and> Typ res = RESULT_SUCCESS) \<or>
             (t = CALLBACK_FAIL \<and> Typ res = RESULT_FAILURE) \<or>
             (t = CALLBACK_ALWAYS \<and> Typ res \<noteq> RESULT_CANCELLED)
          then
            (case assert_funcV callback of
               Inl e \<Rightarrow> Break (Inl e, s)
             | Inr callbackFunc \<Rightarrow> Break (call_funcV callbackFunc (Result res) s))
          else if t = CALLBACK_CANCEL \<and> Typ res = RESULT_CANCELLED then
            (case assert_func0 callback of
               Inl e \<Rightarrow> Break (Inl e, s)
             | Inr callbackFunc \<Rightarrow> Break (call_func0 callbackFunc s))
          else Break (Inr (), s))))"

definition addCallback ::
  "iface \<Rightarrow> callbackType \<Rightarrow> nat option \<Rightarrow> state \<Rightarrow> ((error + unit) \<times> state) option" where
  "addCallback callback t this s =
     (let loop = for_loop (addCallback_iter callback t this) s in
      if callback = Nil_iface then Some (Inr (), s)
      else if t = CALLBACK_DONE \<or> t = CALLBACK_FAIL \<or> t = CALLBACK_ALWAYS then
        (if \<not> ok_funcV callback
         then Some (Inl (Panic ''Callback function spec must be func(v interface{})''), s)
         else loop)
      else if t = CALLBACK_CANCEL then
        (if \<not> ok_func0 callback
         then Some (Inl (Panic ''Callback function spec must be func()''), s)
         else loop)
      else loop)"

text \<open>
  The four public registrations. Each passes its typed function parameter to the
  \<^verbatim>\<open>interface{}\<close> parameter of \<^verbatim>\<open>addCallback\<close>, which wraps it with its static type, and
  returns the receiver.
\<close>

definition returning :: "'a \<Rightarrow> ((error + unit) \<times> state) option \<Rightarrow> ((error + 'a) \<times> state) option" where
  "returning x m =
     (case m of
        None \<Rightarrow> None
      | Some (Inl e, s') \<Rightarrow> Some (Inl e, s')
      | Some (Inr u, s') \<Rightarrow> Some (Inr x, s'))"

definition OnSuccess :: "funcV option \<Rightarrow> nat option \<Rightarrow> state \<Rightarrow> ((error + nat option) \<times> state) option" where
  "OnSuccess callback this s = returning this (addCallback (Func_v callback) CALLBACK_DONE this s)"

definition OnFailure :: "funcV option \<Rightarrow> nat option \<Rightarrow> state \<Rightarrow> ((error + nat option) \<times> state) option" where
  "OnFailure callback this s = returning this (addCallback (Func_v callback) CALLBACK_FAIL this s)"

definition OnComplete :: "funcV option \<Rightarrow> nat option \<Rightarrow> state \<Rightarrow> ((error + nat option) \<times> state) option" where
  "OnComplete callback this s = returning this (addCallback (Func_v callback) CALLBACK_ALWAYS this s)"

definition OnCancel :: "func0 option \<Rightarrow> nat option \<Rightarrow> state \<Rightarrow> ((error + nat option) \<times> state) option" where
  "OnCancel callback this s = returning this (addCallback (Func_0 callback) CALLBACK_CANCEL this s)"

section \<open>Chaining\<close>

text \<open>
  The body of the \<^verbatim>\<open>for\<close> loop of \<^verbatim>\<open>Pipe\<close>. The named result \<^verbatim>\<open>result\<close> (here \<open>result'\<close>)
  is assigned in the loop and lives across its passes, so it is part of the loop's
  state. The branch for a settled Future has no \<^verbatim>\<open>break\<close>: it ends in the next pass. The loop is entered only
  with \<^verbatim>\<open>len(callbacks) >= 1\<close> (the guard of \<^verbatim>\<open>Pipe\<close>), so \<^verbatim>\<open>callbacks[0]\<close> is in range, and
  \<^verbatim>\<open>callbacks[1]\<close> is read only behind \<^verbatim>\<open>len(callbacks) > 1\<close>.
\<close>

definition Pipe_iter ::
  "task option list \<Rightarrow> nat option \<Rightarrow> nat option \<times> state \<Rightarrow>
     ((error + nat option) \<times> state, nat option \<times> state) iter" where
  "Pipe_iter callbacks this l =
     (case l of (result', s) \<Rightarrow>
     (case loadVal this s of
        Inl e \<Rightarrow> Break (Inl e, s)
      | Inr v \<Rightarrow>
     (case deref_futureVal v s of
        Inl e \<Rightarrow> Break (Inl e, s)
      | Inr fv \<Rightarrow>
     (case r fv of
        Some res \<Rightarrow>
          if Typ res = RESULT_SUCCESS \<and> callbacks ! 0 \<noteq> None then
            (case call_task (callbacks ! 0) (Result res) s of
               (Inl e, s1) \<Rightarrow> Break (Inl e, s1)
             | (Inr fu, s1) \<Rightarrow> Continue (fu, s1))
          else if Typ res = RESULT_FAILURE \<and> length callbacks > 1 \<and> callbacks ! 1 \<noteq> None then
            (case call_task (callbacks ! 1) (Result res) s of
               (Inl e, s1) \<Rightarrow> Break (Inl e, s1)
             | (Inr fu, s1) \<Rightarrow> Continue (fu, s1))
          else Continue (this, s)
      | None \<Rightarrow>
          (case NewPromise s of
             (pipePromise', s1) \<Rightarrow>
               let newPipe = \<lparr>pipeDoneTask = callbacks ! 0,
                              pipeFailTask = (if length callbacks > 1 then callbacks ! 1 else None),
                              pipePromise = pipePromise'\<rparr>;
                   newVal = fv\<lparr>pipes := pipes fv @ [newPipe]\<rparr>
               in
               (case new_futureVal newVal s1 of
                  (p, s2) \<Rightarrow>
                    (case CompareAndSwapPointer_val this v p s2 of
                       (Inl e, s3) \<Rightarrow> Break (Inl e, s3)
                     | (Inr swapped, s3) \<Rightarrow>
                         if swapped then
                           (case pipePromise newPipe of
                              None \<Rightarrow> Break (Inl NilDereference, s3)
                            | Some pr \<Rightarrow> Break (Inr (Future pr), s3))
                         else Continue (result', s3))))))))"

text \<open>
  \<^verbatim>\<open>Pipe\<close> with its variadic parameter as a list. The named results start as \<^verbatim>\<open>nil\<close> and
  \<^verbatim>\<open>false\<close>; the early \<^verbatim>\<open>return\<close> of the guard leaves \<^verbatim>\<open>ok\<close> as it is, and \<^verbatim>\<open>ok = true\<close> stands
  after the loop.
\<close>

definition Pipe ::
  "task option list \<Rightarrow> nat option \<Rightarrow> state \<Rightarrow> ((error + nat option \<times> bool) \<times> state) option" where
  "Pipe callbacks this s =
     (if length callbacks = 0 \<or>
         (length callbacks = 1 \<and> callbacks ! 0 = None) \<or>
         (length callbacks > 1 \<and> callbacks ! 0 = None \<and> callbacks ! 1 = None)
      then Some (Inr (this, False), s)
      else
        (case for_loop (Pipe_iter callbacks this) (None, s) of
           None \<Rightarrow> None
         | Some (Inl e, s') \<Rightarrow> Some (Inl e, s')
         | Some (Inr result', s') \<Rightarrow> Some (Inr (result', True), s')))"

section \<open>Waiting for the result\<close>

text \<open>
  A receive \<^verbatim>\<open><-c\<close>: a waiting value is taken out of the channel; a closed and empty
  channel gives the zero value at once and stays as it is; otherwise the receive blocks,
  and since no other goroutine runs in between, it blocks for ever (\<open>None\<close>).
\<close>

definition recv :: "'a chan \<Rightarrow> ('a option \<times> 'a chan) option" where
  "recv c =
     (case buf c of
        x # xs \<Rightarrow> Some (Some x, c\<lparr>buf := xs\<rparr>)
      | [] \<Rightarrow> if closed c then Some (None, c) else None)"

text \<open>
  Modelled from the spec: \<^verbatim>\<open>getFutureReturnVal\<close> is called by \<^verbatim>\<open>Get\<close> and \<^verbatim>\<open>GetOrTimeout\<close> but
  is not in \<^verbatim>\<open>future.go\<close>. By the spec the pair is \<open>(value, nil)\<close> for Success,
  \<open>(nil, error)\<close> for Failure and \<open>(nil, CancelledError)\<close> for Cancelled. It reads the
  fields of its argument, so a nil argument panics.
\<close>

definition CancelledError :: any where
  "CancelledError = AError ''Task is cancelled''"

definition getFutureReturnVal :: "PromiseResult option \<Rightarrow> error + any \<times> any" where
  "getFutureReturnVal p =
     (case p of
        None \<Rightarrow> Inl NilDereference
      | Some res \<Rightarrow>
          (case Typ res of
             RESULT_SUCCESS \<Rightarrow> Inr (Result res, ANil)
           | RESULT_FAILURE \<Rightarrow> Inr (ANil, Result res)
           | RESULT_CANCELLED \<Rightarrow> Inr (ANil, CancelledError)))"

text \<open>\<^verbatim>\<open><-this.chEnd\<close> followed by \<^verbatim>\<open>getFutureReturnVal(this.result())\<close>, as \<^verbatim>\<open>Get\<close> and the second case of \<^verbatim>\<open>GetOrTimeout\<close> do.\<close>

definition recv_chEnd_then_result ::
  "nat option \<Rightarrow> state \<Rightarrow> ((error + any \<times> any) \<times> state) option" where
  "recv_chEnd_then_result this s =
     (case this of
        None \<Rightarrow> Some (Inl NilDereference, s)
      | Some a \<Rightarrow>
     (case deref_Future this s of
        Inl e \<Rightarrow> Some (Inl e, s)
      | Inr f \<Rightarrow>
     (case recv (chEnd f) of
        None \<Rightarrow> None
      | Some (x, c) \<Rightarrow>
          let s1 = store_Future a (f\<lparr>chEnd := c\<rparr>) s in
          (case result this s1 of
             Inl e \<Rightarrow> Some (Inl e, s1)
           | Inr p \<Rightarrow>
               (case getFutureReturnVal p of
                  Inl e \<Rightarrow> Some (Inl e, s1)
                | Inr ve \<Rightarrow> Some (Inr ve, s1))))))"

definition Get :: "nat option \<Rightarrow> state \<Rightarrow> ((error + any \<times> any) \<times> state) option" where
  "Get this s = recv_chEnd_then_result this s"

text \<open>
  Which case of a \<^verbatim>\<open>select\<close> runs is decided by the race between the timer and the
  completion signal; the case that ran is an argument of the model.
\<close>

datatype select_case = Case_time_After | Case_chEnd

text \<open>
  \<^verbatim>\<open>GetOrTimeout\<close>. The parameter \<^verbatim>\<open>mm int\<close> is taken 64 bits wide, as on a 64-bit platform,
  and \<^verbatim>\<open>*\<close> wraps around. Entering the \<^verbatim>\<open>select\<close> evaluates both channel operands: \<^verbatim>\<open>time.After\<close> arms the timer and
  \<^verbatim>\<open>this.chEnd\<close> reads the receiver.
\<close>

definition GetOrTimeout ::
  "select_case \<Rightarrow> 64 word \<Rightarrow> nat option \<Rightarrow> state \<Rightarrow> ((error + any \<times> any \<times> bool) \<times> state) option" where
  "GetOrTimeout fired mm this s =
     (let mm' = (if mm = 0 then 10 else mm * 1000 * 1000);
          s1 = s\<lparr>calls := calls s @ [Time_After mm']\<rparr>
      in
      (case deref_Future this s1 of
         Inl e \<Rightarrow> Some (Inl e, s1)
       | Inr f \<Rightarrow>
           (case fired of
              Case_time_After \<Rightarrow> Some (Inr (ANil, ANil, True), s1)
            | Case_chEnd \<Rightarrow>
                (case recv_chEnd_then_result this s1 of
                   None \<Rightarrow> None
                 | Some (Inl e, s2) \<Rightarrow> Some (Inl e, s2)
                 | Some (Inr (x, err), s2) \<Rightarrow> Some (Inr (x, err, False), s2)))))"

section \<open>Settling a Promise\<close>

text \<open>
  Modelled from the spec: the settle operations of the Promise (\<^verbatim>\<open>Resolve\<close>, \<^verbatim>\<open>Reject\<close>, \<^verbatim>\<open>Cancel\<close>)
  are not in \<^verbatim>\<open>future.go\<close>. By the spec (4.2) a settle reads the current snapshot; on a
  terminal snapshot the call is a no-op; otherwise it builds a terminal snapshot with the
  new Result and empty callback and pipe lists and installs it by compare-and-swap,
  starting again when the compare-and-swap fails. After the swap it fires the completion
  signal and then calls, in registration order, the callbacks of the displaced snapshot
  that match the kind of the Result (success and always callbacks for Success, failure
  and always callbacks for Failure, cancel callbacks for Cancelled), and for every pipe
  of the displaced snapshot its matching continuation with the payload. By the data model
  (3) the flag of a Future goes NotRequested, Requested, Cancelled; its state Cancelled
  (2) is the one of a Future settled with outcome Cancelled, so the settle with kind
  Cancelled writes it when it fires the signal. The Future that a continuation returns
  feeds the downstream Promise of the pipe when it settles: that is a later settle of
  the downstream Promise, a call of its own.
\<close>

fun call_all_funcV :: "funcV option list \<Rightarrow> any \<Rightarrow> state \<Rightarrow> (error + unit) \<times> state" where
  "call_all_funcV [] x s = (Inr (), s)"
| "call_all_funcV (c # cs) x s =
     (case call_funcV c x s of
        (Inl e, s') \<Rightarrow> (Inl e, s')
      | (Inr u, s') \<Rightarrow> call_all_funcV cs x s')"

fun call_all_func0 :: "func0 option list \<Rightarrow> state \<Rightarrow> (error + unit) \<times> state" where
  "call_all_func0 [] s = (Inr (), s)"
| "call_all_func0 (c # cs) s =
     (case call_func0 c s of
        (Inl e, s') \<Rightarrow> (Inl e, s')
      | (Inr u, s') \<Rightarrow> call_all_func0 cs s')"

fun fire_pipes :: "pipe list \<Rightarrow> PromiseResult \<Rightarrow> state \<Rightarrow> (error + unit) \<times> state" where
  "fire_pipes [] res s = (Inr (), s)"
| "fire_pipes (p # ps) res s =
     (case (if Typ res = RESULT_CANCELLED then None
            else fst (getPipe p (Typ res = RESULT_SUCCESS))) of
        None \<Rightarrow> fire_pipes ps res s
      | Some pipeTask \<Rightarrow>
          (case call_task (Some pipeTask) (Result res) s of
             (Inl e, s') \<Rightarrow> (Inl e, s')
           | (Inr fu, s') \<Rightarrow> fire_pipes ps res s'))"

definition fire_completion :: "PromiseResult \<Rightarrow> nat option \<Rightarrow> state \<Rightarrow> (error + unit) \<times> state" where
  "fire_completion res this s =
     (case this of
        None \<Rightarrow> (Inl NilDereference, s)
      | Some a \<Rightarrow>
          (case deref_Future this s of
             Inl e \<Rightarrow> (Inl e, s)
           | Inr f \<Rightarrow>
               (Inr (),
                store_Future a
                  (f\<lparr>chEnd := (chEnd f)\<lparr>closed := True\<rparr>,
                     cancelStatus := (if Typ res = RESULT_CANCELLED then 2 else cancelStatus f)\<rparr>)
                  s)))"

definition drain :: "PromiseResult \<Rightarrow> futureVal \<Rightarrow> state \<Rightarrow> (error + unit) \<times> state" where
  "drain res displaced s =
     (case (case Typ res of
              RESULT_SUCCESS \<Rightarrow> call_all_funcV (dones displaced @ always displaced) (Result res) s
            | RESULT_FAILURE \<Rightarrow> call_all_funcV (fails displaced @ always displaced) (Result res) s
            | RESULT_CANCELLED \<Rightarrow> call_all_func0 (cancels displaced) s) of
        (Inl e, s1) \<Rightarrow> (Inl e, s1)
      | (Inr u, s1) \<Rightarrow> fire_pipes (pipes displaced) res s1)"

definition settle_iter ::
  "PromiseResult \<Rightarrow> nat option \<Rightarrow> state \<Rightarrow> ((error + unit) \<times> state, state) iter" where
  "settle_iter res this s =
     (case loadVal this s of
        Inl e \<Rightarrow> Break (Inl e, s)
      | Inr v \<Rightarrow>
     (case deref_futureVal v s of
        Inl e \<Rightarrow> Break (Inl e, s)
      | Inr fv \<Rightarrow>
     (case r fv of
        Some terminal \<Rightarrow> Break (Inr (), s)
      | None \<Rightarrow>
          (case new_futureVal (empty_futureVal\<lparr>r := Some res\<rparr>) s of
             (p, s1) \<Rightarrow>
               (case CompareAndSwapPointer_val this v p s1 of
                  (Inl e, s2) \<Rightarrow> Break (Inl e, s2)
                | (Inr swapped, s2) \<Rightarrow>
                    if swapped then
                      (case fire_completion res this s2 of
                         (Inl e, s3) \<Rightarrow> Break (Inl e, s3)
                       | (Inr u, s3) \<Rightarrow> Break (drain res fv s3))
                    else Continue s2)))))"

definition settle :: "PromiseResult \<Rightarrow> Promise \<Rightarrow> state \<Rightarrow> ((error + unit) \<times> state) option" where
  "settle res this s = for_loop (settle_iter res (Future this)) s"

definition Resolve :: "any \<Rightarrow> Promise \<Rightarrow> state \<Rightarrow> ((error + unit) \<times> state) option" where
  "Resolve v this s = settle \<lparr>Result = v, Typ = RESULT_SUCCESS\<rparr> this s"

definition Reject :: "any \<Rightarrow> Promise \<Rightarrow> state \<Rightarrow> ((error + unit) \<times> state) option" where
  "Reject err this s = settle \<lparr>Result = err, Typ = RESULT_FAILURE\<rparr> this s"

definition Cancel :: "Promise \<Rightarrow> state \<Rightarrow> ((error + unit) \<times> state) option" where
  "Cancel this s = settle \<lparr>Result = ANil, Typ = RESULT_CANCELLED\<rparr> this s"

section \<open>States used to state and to instantiate the theorems\<close>

text \<open>
  The state after a successful compare-and-swap that publishes a new snapshot object for
  the Future \<open>this\<close>: the object is added to the store of snapshots, the Future points to
  it, and nothing else differs from \<open>s\<close>. Older snapshot objects stay as they were.
\<close>

definition install :: "nat option \<Rightarrow> futureVal \<Rightarrow> state \<Rightarrow> state" where
  "install this newVal s =
     (case this of
        None \<Rightarrow> s
      | Some a \<Rightarrow>
          s\<lparr>futureVals := futureVals s @ [newVal],
            futures := (futures s)[a := (futures s ! a)\<lparr>val := Some (length (futureVals s))\<rparr>]\<rparr>)"

text \<open>\<open>n\<close> calls of \<^verbatim>\<open>RequestCancel\<close> in a row on the same Future.\<close>

fun RequestCancel_times :: "nat \<Rightarrow> nat option \<Rightarrow> state \<Rightarrow> state" where
  "RequestCancel_times 0 this s = s"
| "RequestCancel_times (Suc n) this s = RequestCancel_times n this (snd (RequestCancel this s))"

text \<open>
  Three concrete states: nothing allocated; one pending Future at address 0, as
  \<open>NewPromise\<close> makes it; one Future at address 0 that is settled with a given Result and
  whose completion channel is closed.
\<close>

definition init_state :: state where
  "init_state = \<lparr>futures = [], futureVals = [], calls = []\<rparr>"

definition pending_state :: state where
  "pending_state = snd (NewPromise init_state)"

definition settled_state :: "PromiseResult \<Rightarrow> state" where
  "settled_state res =
     \<lparr>futures = [\<lparr>Id_ = 0, chOut = \<lparr>buf = [], closed = False\<rparr>,
                   chEnd = \<lparr>buf = [], closed = True\<rparr>, val = Some 0, cancelStatus = 0\<rparr>],
      futureVals = [empty_futureVal\<lparr>r := Some res\<rparr>],
      calls = []\<rparr>"

text \<open>
  A call of one method of \<^verbatim>\<open>future.go\<close> on a receiver, and the state it leaves behind
  (also when it panics); \<open>None\<close> when the call does not return.
\<close>

datatype future_method =
  M_RequestCancel
  | M_IsCancelled
  | M_GetChan
  | M_Get
  | M_GetOrTimeout select_case "64 word"
  | M_OnSuccess "funcV option"
  | M_OnFailure "funcV option"
  | M_OnComplete "funcV option"
  | M_OnCancel "func0 option"
  | M_Pipe "task option list"

definition call_method :: "future_method \<Rightarrow> nat option \<Rightarrow> state \<Rightarrow> state option" where
  "call_method m this s =
     (case m of
        M_RequestCancel \<Rightarrow> Some (snd (RequestCancel this s))
      | M_IsCancelled \<Rightarrow> Some s
      | M_GetChan \<Rightarrow> Some s
      | M_Get \<Rightarrow> map_option snd (Get this s)
      | M_GetOrTimeout fired mm \<Rightarrow> map_option snd (GetOrTimeout fired mm this s)
      | M_OnSuccess callback \<Rightarrow> map_option snd (OnSuccess callback this s)
      | M_OnFailure callback \<Rightarrow> map_option snd (OnFailure callback this s)
      | M_OnComplete callback \<Rightarrow> map_option snd (OnComplete callback this s)
      | M_OnCancel callback \<Rightarrow> map_option snd (OnCancel callback this s)
      | M_Pipe callbacks \<Rightarrow> map_option snd (Pipe callbacks this s))"

text \<open>
  The states a program can reach: it starts with nothing allocated, and each step is
  the creation of a Promise, a call of a method of \<^verbatim>\<open>future.go\<close> on some receiver, or a
  call of \<^verbatim>\<open>Resolve\<close>, \<^verbatim>\<open>Reject\<close> or \<^verbatim>\<open>Cancel\<close> on some Promise, each call run to its end.
\<close>

inductive reachable :: "state \<Rightarrow> bool" where
  start: "reachable init_state"
| new: "reachable s \<Longrightarrow> reachable (snd (NewPromise s))"
| call: "reachable s \<Longrightarrow> call_method m this s = Some s' \<Longrightarrow> reachable s'"
| resolve: "reachable s \<Longrightarrow> Resolve v pr s = Some (x, s') \<Longrightarrow> reachable s'"
| reject: "reachable s \<Longrightarrow> Reject err pr s = Some (x, s') \<Longrightarrow> reachable s'"
| cancel: "reachable s \<Longrightarrow> Cancel pr s = Some (x, s') \<Longrightarrow> reachable s'"

text \<open>The snapshot is the one of a Future settled with outcome Cancelled.\<close>

definition is_Cancelled :: "futureVal \<Rightarrow> bool" where
  "is_Cancelled fv = (case r fv of None \<Rightarrow> False | Some res \<Rightarrow> Typ res = RESULT_CANCELLED)"

text \<open>
  Every Future points to a snapshot object, and its flag is 2 exactly when that
  snapshot is one of a Future settled with outcome Cancelled.
\<close>

definition flag_linked :: "state \<Rightarrow> bool" where
  "flag_linked s =
     (\<forall>a < length (futures s).
        \<exists>p. val (futures s ! a) = Some p \<and> p < length (futureVals s) \<and>
            (cancelStatus (futures s ! a) = 2) = is_Cancelled (futureVals s ! p))"

section \<open>Loops\<close>

lemma for_loop_Break: "body l = Break res \<Longrightarrow> for_loop body l = Some res"
  by (subst for_loop.simps) simp

text \<open>
  A loop whose every pass, started in a state of \<open>I\<close>, ends with \<open>Continue\<close> in a state of
  \<open>I\<close> never returns.
\<close>

lemma for_loop_diverges:
  assumes step: "\<And>l. I l \<Longrightarrow> \<exists>l'. body l = Continue l' \<and> I l'"
    and init: "I l"
  shows "for_loop body l = None"
proof (rule ccontr)
  assume "for_loop body l \<noteq> None"
  then obtain y where y: "for_loop body l = Some y" by auto
  have "body = body \<longrightarrow> \<not> I l"
  proof (rule for_loop.raw_induct[where P = "\<lambda>b l y. b = body \<longrightarrow> \<not> I l", OF _ y])
    fix loop' b l y
    assume IH: "\<And>b l y. loop' b l = Some y \<Longrightarrow> b = body \<longrightarrow> \<not> I l"
      and unf: "(case b l of Break res \<Rightarrow> Some res | Continue l' \<Rightarrow> loop' b l') = Some y"
    show "b = body \<longrightarrow> \<not> I l"
    proof (intro impI notI)
      assume b: "b = body" and "I l"
      then obtain l' where l': "body l = Continue l'" "I l'" using step by blast
      with unf b have "loop' body l' = Some y" by simp
      from IH[OF this] l'(2) show False by simp
    qed
  qed
  with init show False by simp
qed

section \<open>Reading and publishing snapshots\<close>

lemma deref_Future_Some:
  "deref_Future this s = Inr f \<Longrightarrow> \<exists>a. this = Some a \<and> a < length (futures s) \<and> futures s ! a = f"
  by (auto simp: deref_Future_def split: option.splits if_splits)

lemma deref_Future_calls_update [simp]: "deref_Future p (s\<lparr>calls := c\<rparr>) = deref_Future p s"
  by (simp add: deref_Future_def split: option.splits)

lemma deref_futureVal_calls_update [simp]: "deref_futureVal p (s\<lparr>calls := c\<rparr>) = deref_futureVal p s"
  by (simp add: deref_futureVal_def split: option.splits)

lemma snapshot_calls_update [simp]: "snapshot this (s\<lparr>calls := c\<rparr>) = snapshot this s"
  by (simp add: snapshot_def loadVal_def LoadPointer_val_def split: sum.splits)

lemma snapshot_SomeD:
  assumes "snapshot this s = Some fv"
  obtains a f p where "this = Some a" "a < length (futures s)" "futures s ! a = f"
    "val f = Some p" "p < length (futureVals s)" "futureVals s ! p = fv"
  using assms
  by (auto simp: snapshot_def loadVal_def LoadPointer_val_def deref_Future_def deref_futureVal_def
      split: option.splits if_splits sum.splits)

lemma snapshot_reads:
  assumes "snapshot this s = Some fv"
  shows "\<exists>v. loadVal this s = Inr v \<and> deref_futureVal v s = Inr fv"
  using assms by (auto simp: snapshot_def split: sum.splits)

lemma snapshot_install:
  assumes "snapshot this s = Some fv"
  shows "snapshot this (install this newVal s) = Some newVal"
  using assms
  by (elim snapshot_SomeD)
     (simp add: snapshot_def install_def loadVal_def LoadPointer_val_def deref_Future_def deref_futureVal_def)

lemma calls_install [simp]: "calls (install this newVal s) = calls s"
  by (simp add: install_def split: option.splits)

lemma NewPromise_eq:
  "NewPromise s =
     (Some \<lparr>Future = Some (length (futures s))\<rparr>,
      s\<lparr>futureVals := futureVals s @ [empty_futureVal],
        futures := futures s @
          [\<lparr>Id_ = int (length (futures s)), chOut = \<lparr>buf = [], closed = False\<rparr>,
            chEnd = \<lparr>buf = [], closed = False\<rparr>, val = Some (length (futureVals s)),
            cancelStatus = 0\<rparr>]\<rparr>)"
  by (simp add: NewPromise_def new_futureVal_def Let_def)

lemma pending_state_eq:
  "pending_state =
     \<lparr>futures = [\<lparr>Id_ = 0, chOut = \<lparr>buf = [], closed = False\<rparr>,
                   chEnd = \<lparr>buf = [], closed = False\<rparr>, val = Some 0, cancelStatus = 0\<rparr>],
      futureVals = [empty_futureVal], calls = []\<rparr>"
  by (simp add: pending_state_def NewPromise_eq init_state_def)

lemma deref_pending_state:
  "deref_Future (Some 0) pending_state =
     Inr \<lparr>Id_ = 0, chOut = \<lparr>buf = [], closed = False\<rparr>,
          chEnd = \<lparr>buf = [], closed = False\<rparr>, val = Some 0, cancelStatus = 0\<rparr>"
  by (simp add: pending_state_eq deref_Future_def)

lemma snapshot_pending_state: "snapshot (Some 0) pending_state = Some empty_futureVal"
  by (simp add: snapshot_def pending_state_eq loadVal_def LoadPointer_val_def deref_Future_def
      deref_futureVal_def)

lemma snapshot_settled_state:
  "snapshot (Some 0) (settled_state res) = Some (empty_futureVal\<lparr>r := Some res\<rparr>)"
  by (simp add: snapshot_def settled_state_def loadVal_def LoadPointer_val_def deref_Future_def
      deref_futureVal_def)

section \<open>Registration: one pass of the loop\<close>

lemma addCallback_iter_pending:
  assumes "snapshot this s = Some fv" "r fv = None" "append_callback callback t fv = Inr newVal"
  shows "addCallback_iter callback t this s = Break (Inr (), install this newVal s)"
  using assms(1)
proof (rule snapshot_SomeD)
  fix a f p
  assume "this = Some a" "a < length (futures s)" "futures s ! a = f"
    "val f = Some p" "p < length (futureVals s)" "futureVals s ! p = fv"
  then show ?thesis
    using assms(2,3)
    by (simp add: addCallback_iter_def loadVal_def LoadPointer_val_def deref_Future_def
        deref_futureVal_def new_futureVal_def CompareAndSwapPointer_val_def store_Future_def install_def)
qed

lemma addCallback_pending:
  assumes "snapshot this s = Some fv" "r fv = None" "append_callback callback t fv = Inr newVal"
    "callback \<noteq> Nil_iface"
  shows "addCallback callback t this s = Some (Inr (), install this newVal s)"
proof -
  have ok: "(t = CALLBACK_DONE \<or> t = CALLBACK_FAIL \<or> t = CALLBACK_ALWAYS \<longrightarrow> ok_funcV callback) \<and>
            (t = CALLBACK_CANCEL \<longrightarrow> ok_func0 callback)"
    using assms(3)
    by (cases t; cases callback)
       (simp_all add: append_callback_def assert_funcV_def assert_func0_def ok_funcV_def ok_func0_def)
  show ?thesis
    using ok assms(4)
      for_loop_Break[of "addCallback_iter callback t this" s, OF addCallback_iter_pending[OF assms(1,2,3)]]
    by (cases t) (simp_all add: addCallback_def)
qed

lemma addCallback_iter_settled_funcV:
  assumes "snapshot this s = Some fv" "r fv = Some res"
    "(t = CALLBACK_DONE \<and> Typ res = RESULT_SUCCESS) \<or>
     (t = CALLBACK_FAIL \<and> Typ res = RESULT_FAILURE) \<or>
     (t = CALLBACK_ALWAYS \<and> Typ res \<noteq> RESULT_CANCELLED)"
  shows "addCallback_iter (Func_v cb) t this s = Break (call_funcV cb (Result res) s)"
proof -
  from snapshot_reads[OF assms(1)] obtain v where "loadVal this s = Inr v" "deref_futureVal v s = Inr fv"
    by blast
  then show ?thesis
    using assms(2,3) by (simp add: addCallback_iter_def assert_funcV_def)
qed

lemma addCallback_iter_settled_func0:
  assumes "snapshot this s = Some fv" "r fv = Some res" "Typ res = RESULT_CANCELLED"
  shows "addCallback_iter (Func_0 cb) CALLBACK_CANCEL this s = Break (call_func0 cb s)"
proof -
  from snapshot_reads[OF assms(1)] obtain v where "loadVal this s = Inr v" "deref_futureVal v s = Inr fv"
    by blast
  then show ?thesis
    using assms(2,3) by (simp add: addCallback_iter_def assert_func0_def)
qed

lemma addCallback_settled_funcV:
  assumes "snapshot this s = Some fv" "r fv = Some res"
    "(t = CALLBACK_DONE \<and> Typ res = RESULT_SUCCESS) \<or>
     (t = CALLBACK_FAIL \<and> Typ res = RESULT_FAILURE) \<or>
     (t = CALLBACK_ALWAYS \<and> Typ res \<noteq> RESULT_CANCELLED)"
  shows "addCallback (Func_v cb) t this s = Some (call_funcV cb (Result res) s)"
  using assms(3)
    for_loop_Break[of "addCallback_iter (Func_v cb) t this" s, OF addCallback_iter_settled_funcV[OF assms]]
  by (auto simp: addCallback_def ok_funcV_def)

lemma addCallback_settled_func0:
  assumes "snapshot this s = Some fv" "r fv = Some res" "Typ res = RESULT_CANCELLED"
  shows "addCallback (Func_0 cb) CALLBACK_CANCEL this s = Some (call_func0 cb s)"
  using for_loop_Break[of "addCallback_iter (Func_0 cb) CALLBACK_CANCEL this" s,
      OF addCallback_iter_settled_func0[OF assms]]
  by (simp add: addCallback_def ok_func0_def)

section \<open>Pipe: one pass of the loop\<close>

lemma Pipe_past_guard:
  assumes "callbacks \<noteq> []"
    and "callbacks ! 0 \<noteq> None \<or> (1 < length callbacks \<and> callbacks ! 1 \<noteq> None)"
  shows "Pipe callbacks this s =
           (case for_loop (Pipe_iter callbacks this) (None, s) of
              None \<Rightarrow> None
            | Some (Inl e, s') \<Rightarrow> Some (Inl e, s')
            | Some (Inr result', s') \<Rightarrow> Some (Inr (result', True), s'))"
proof -
  have "\<not> (length callbacks = 0 \<or> (length callbacks = 1 \<and> callbacks ! 0 = None) \<or>
         (length callbacks > 1 \<and> callbacks ! 0 = None \<and> callbacks ! 1 = None))"
    using assms by (cases callbacks) auto
  then show ?thesis
    unfolding Pipe_def by (simp only: if_False)
qed

lemma Pipe_iter_settled:
  assumes "snapshot this s = Some fv" "r fv = Some res"
  shows "\<exists>result'' s'. Pipe_iter callbacks this (result', s) = Continue (result'', s') \<and>
           snapshot this s' = Some fv"
proof -
  from snapshot_reads[OF assms(1)] obtain v where v: "loadVal this s = Inr v" "deref_futureVal v s = Inr fv"
    by blast
  have ct: "\<And>c x. c \<noteq> None \<Longrightarrow> \<exists>fu n. call_task c x s = (Inr fu, s\<lparr>calls := calls s @ [Call_task n x]\<rparr>)"
    by (auto simp: call_task_def split: option.splits task.splits)
  show ?thesis
  proof (cases "Typ res = RESULT_SUCCESS \<and> callbacks ! 0 \<noteq> None")
    case True
    then obtain fu n where
      "call_task (callbacks ! 0) (Result res) s = (Inr fu, s\<lparr>calls := calls s @ [Call_task n (Result res)]\<rparr>)"
      using ct by blast
    then show ?thesis using v assms True by (simp add: Pipe_iter_def)
  next
    case False
    note F1 = this
    show ?thesis
    proof (cases "Typ res = RESULT_FAILURE \<and> length callbacks > 1 \<and> callbacks ! 1 \<noteq> None")
      case True
      then obtain fu n where
        "call_task (callbacks ! 1) (Result res) s = (Inr fu, s\<lparr>calls := calls s @ [Call_task n (Result res)]\<rparr>)"
        using ct by blast
      then show ?thesis using v assms True F1 by (auto simp add: Pipe_iter_def)
    next
      case False
      then show ?thesis using v assms F1 by (auto simp add: Pipe_iter_def)
    qed
  qed
qed

lemma Pipe_settled_diverges:
  assumes "snapshot this s = Some fv" "r fv = Some res"
    and "callbacks \<noteq> []" "callbacks ! 0 \<noteq> None \<or> (1 < length callbacks \<and> callbacks ! 1 \<noteq> None)"
  shows "Pipe callbacks this s = None"
proof -
  have "for_loop (Pipe_iter callbacks this) (None, s) = None"
  proof (rule for_loop_diverges[where I = "\<lambda>l. snapshot this (snd l) = Some fv"])
    fix l :: "nat option \<times> state"
    assume "snapshot this (snd l) = Some fv"
    from Pipe_iter_settled[OF this assms(2), of callbacks "fst l"]
    show "\<exists>l'. Pipe_iter callbacks this l = Continue l' \<and> snapshot this (snd l') = Some fv"
      by auto
  next
    show "snapshot this (snd (None, s)) = Some fv" using assms(1) by simp
  qed
  then show ?thesis
    by (simp add: Pipe_past_guard[OF assms(3,4)])
qed

lemma Pipe_iter_pending:
  assumes "snapshot this s = Some fv" "r fv = None"
  shows "Pipe_iter callbacks this (result', s) =
           Break (Inr (Some (length (futures s))),
                  install this
                    (fv\<lparr>pipes := pipes fv @
                        [\<lparr>pipeDoneTask = callbacks ! 0,
                          pipeFailTask = (if 1 < length callbacks then callbacks ! 1 else None),
                          pipePromise = Some \<lparr>Future = Some (length (futures s))\<rparr>\<rparr>]\<rparr>)
                    (snd (NewPromise s)))"
  using assms(1)
proof (rule snapshot_SomeD)
  fix a f p
  assume "this = Some a" "a < length (futures s)" "futures s ! a = f"
    "val f = Some p" "p < length (futureVals s)" "futureVals s ! p = fv"
  then show ?thesis
    using assms(2)
    by (simp add: Pipe_iter_def loadVal_def LoadPointer_val_def deref_Future_def
        deref_futureVal_def new_futureVal_def CompareAndSwapPointer_val_def store_Future_def
        install_def NewPromise_eq Let_def nth_append)
qed

section \<open>The cancellation flag under RequestCancel\<close>

lemma RequestCancel_keeps_not_2:
  assumes "deref_Future this s = Inr f" "cancelStatus f \<noteq> 2"
  shows "\<exists>f'. deref_Future this (snd (RequestCancel this s)) = Inr f' \<and> cancelStatus f' \<noteq> 2"
proof -
  from assms obtain a where a: "this = Some a" "a < length (futures s)" "futures s ! a = f"
    using deref_Future_Some by blast
  show ?thesis
    using assms a
    by (cases "cancelStatus f = 0")
      (simp_all add: RequestCancel_def LoadInt32_cancelStatus_def CompareAndSwapInt32_cancelStatus_def
        deref_Future_def store_Future_def)
qed

lemma RequestCancel_times_keeps_not_2:
  assumes "deref_Future this s = Inr f" "cancelStatus f \<noteq> 2"
  shows "\<exists>f'. deref_Future this (RequestCancel_times n this s) = Inr f' \<and> cancelStatus f' \<noteq> 2"
  using assms
proof (induction n arbitrary: s f)
  case 0
  then show ?case by simp
next
  case (Suc n)
  from RequestCancel_keeps_not_2[OF Suc.prems] obtain f' where
    "deref_Future this (snd (RequestCancel this s)) = Inr f'" "cancelStatus f' \<noteq> 2" by blast
  from Suc.IH[OF this] show ?case by simp
qed

section \<open>The flag is linked to the Result in every reachable state\<close>

lemma for_loop_invariant:
  assumes res: "for_loop body l = Some res" and init: "I l"
    and cont: "\<And>l l'. I l \<Longrightarrow> body l = Continue l' \<Longrightarrow> I l'"
    and brk: "\<And>l res. I l \<Longrightarrow> body l = Break res \<Longrightarrow> Q res"
  shows "Q res"
proof -
  have "body = body \<longrightarrow> I l \<longrightarrow> Q res"
  proof (rule for_loop.raw_induct[where P = "\<lambda>b l y. b = body \<longrightarrow> I l \<longrightarrow> Q y", OF _ res])
    fix loop' b l y
    assume IH: "\<And>b l y. loop' b l = Some y \<Longrightarrow> b = body \<longrightarrow> I l \<longrightarrow> Q y"
      and unf: "(case b l of Break res \<Rightarrow> Some res | Continue l' \<Rightarrow> loop' b l') = Some y"
    show "b = body \<longrightarrow> I l \<longrightarrow> Q y"
    proof (intro impI)
      assume b: "b = body" and I: "I l"
      show "Q y"
      proof (cases "body l")
        case (Break x)
        with unf b have "x = y" by simp
        with brk[OF I Break] show ?thesis by simp
      next
        case (Continue l')
        with unf b have "loop' body l' = Some y" by simp
        from IH[OF this] cont[OF I Continue] show ?thesis by simp
      qed
    qed
  qed
  with init show ?thesis by simp
qed

lemma flag_linked_frame:
  "futures s' = futures s \<Longrightarrow> futureVals s' = futureVals s \<Longrightarrow> flag_linked s' = flag_linked s"
  by (simp add: flag_linked_def)

lemma flag_linked_calls [simp]: "flag_linked (s\<lparr>calls := c\<rparr>) = flag_linked s"
  by (simp add: flag_linked_def)

lemma flag_linked_new_futureVal:
  "flag_linked s \<Longrightarrow> flag_linked (snd (new_futureVal v s))"
  by (fastforce simp: flag_linked_def new_futureVal_def nth_append)

lemma flag_linked_store:
  assumes "flag_linked s" and "val f' = Some p" and "p < length (futureVals s)"
    and "(cancelStatus f' = 2) = is_Cancelled (futureVals s ! p)"
  shows "flag_linked (store_Future a f' s)"
  unfolding flag_linked_def
proof (intro allI impI)
  fix b assume "b < length (futures (store_Future a f' s))"
  then have b: "b < length (futures s)" by (simp add: store_Future_def)
  show "\<exists>q. val (futures (store_Future a f' s) ! b) = Some q \<and>
            q < length (futureVals (store_Future a f' s)) \<and>
            (cancelStatus (futures (store_Future a f' s) ! b) = 2) =
              is_Cancelled (futureVals (store_Future a f' s) ! q)"
  proof (cases "b = a")
    case True
    with b assms(2,3,4) show ?thesis by (simp add: store_Future_def)
  next
    case False
    with b assms(1) show ?thesis by (simp add: store_Future_def flag_linked_def)
  qed
qed

lemma flag_linked_deref:
  assumes "flag_linked s" and "deref_Future this s = Inr f"
  shows "\<exists>p. val f = Some p \<and> p < length (futureVals s) \<and>
             (cancelStatus f = 2) = is_Cancelled (futureVals s ! p)"
  using assms
  by (auto simp: flag_linked_def deref_Future_def split: option.splits if_splits)

lemma flag_linked_NewPromise:
  "flag_linked s \<Longrightarrow> flag_linked (snd (NewPromise s))"
  by (fastforce simp: flag_linked_def NewPromise_eq nth_append is_Cancelled_def empty_futureVal_def)

lemma flag_linked_init: "flag_linked init_state"
  by (simp add: flag_linked_def init_state_def)

lemma loadVal_deref:
  assumes "loadVal this s = Inr v"
  obtains a f where "this = Some a" "a < length (futures s)" "futures s ! a = f" "val f = v"
    "deref_Future this s = Inr f"
  using assms
  by (auto simp: loadVal_def LoadPointer_val_def deref_Future_def split: option.splits if_splits sum.splits)

lemma deref_futureVal_Some:
  assumes "deref_futureVal v s = Inr fv"
  obtains p where "v = Some p" "p < length (futureVals s)" "futureVals s ! p = fv"
  using assms by (auto simp: deref_futureVal_def split: option.splits if_splits)

text \<open>
  Publishing a copy of the current snapshot that is Cancelled exactly when the current
  one is keeps the link, whether or not the compare-and-swap succeeds.
\<close>

lemma flag_linked_publish:
  assumes inv: "flag_linked s" and lv: "loadVal this s = Inr v"
    and dv: "deref_futureVal v s = Inr fv" and same: "is_Cancelled newVal = is_Cancelled fv"
  shows "flag_linked (snd (CompareAndSwapPointer_val this v (fst (new_futureVal newVal s))
                            (snd (new_futureVal newVal s))))"
proof -
  obtain a f where a: "this = Some a" "a < length (futures s)" "futures s ! a = f" "val f = v"
    "deref_Future this s = Inr f"
    using lv by (rule loadVal_deref)
  obtain p where p: "v = Some p" "p < length (futureVals s)" "futureVals s ! p = fv"
    using dv by (rule deref_futureVal_Some)
  let ?s1 = "snd (new_futureVal newVal s)"
  have s1: "flag_linked ?s1" using inv by (rule flag_linked_new_futureVal)
  have d1: "deref_Future this ?s1 = Inr f"
    using a by (simp add: deref_Future_def new_futureVal_def)
  from flag_linked_deref[OF inv a(5)] a(4) p
  have link: "(cancelStatus f = 2) = is_Cancelled fv" by auto
  have "flag_linked (store_Future a (f\<lparr>val := Some (length (futureVals s))\<rparr>) ?s1)"
    by (rule flag_linked_store[OF s1, where p = "length (futureVals s)"])
       (simp_all add: new_futureVal_def link same)
  then show ?thesis
    using a d1 s1 by (simp add: CompareAndSwapPointer_val_def new_futureVal_def)
qed

lemma append_callback_r:
  "append_callback callback t fv = Inr newVal \<Longrightarrow> is_Cancelled newVal = is_Cancelled fv"
  by (auto simp: append_callback_def is_Cancelled_def split: callbackType.splits sum.splits)

lemma flag_linked_call_funcV [simp]: "flag_linked (snd (call_funcV c x s)) = flag_linked s"
  by (simp add: call_funcV_def split: option.splits)

lemma flag_linked_call_func0 [simp]: "flag_linked (snd (call_func0 c s)) = flag_linked s"
  by (simp add: call_func0_def split: option.splits)

lemma flag_linked_call_task [simp]: "flag_linked (snd (call_task c x s)) = flag_linked s"
  by (simp add: call_task_def split: option.splits task.splits)

lemma flag_linked_addCallback_iter:
  assumes inv: "flag_linked s"
  shows "case addCallback_iter callback t this s of
           Break res \<Rightarrow> flag_linked (snd res)
         | Continue s' \<Rightarrow> flag_linked s'"
proof (cases "loadVal this s")
  case (Inl e)
  then show ?thesis using inv by (simp add: addCallback_iter_def)
next
  case lv: (Inr v)
  show ?thesis
  proof (cases "deref_futureVal v s")
    case (Inl e)
    then show ?thesis using inv lv by (simp add: addCallback_iter_def)
  next
    case dv: (Inr fv)
    show ?thesis
    proof (cases "r fv")
      case (Some res)
      then show ?thesis
        using inv lv dv by (simp add: addCallback_iter_def split: sum.split)
    next
      case None
      show ?thesis
      proof (cases "append_callback callback t fv")
        case (Inl e)
        then show ?thesis using inv lv dv None by (simp add: addCallback_iter_def)
      next
        case (Inr newVal)
        from flag_linked_publish[OF inv lv dv append_callback_r[OF Inr]]
        show ?thesis
          using lv dv None Inr by (simp add: addCallback_iter_def split_beta split: sum.split)
      qed
    qed
  qed
qed

lemma flag_linked_addCallback:
  assumes "flag_linked s" and "addCallback callback t this s = Some res"
  shows "flag_linked (snd res)"
proof -
  have loop: "flag_linked (snd res')"
    if "for_loop (addCallback_iter callback t this) s = Some res'" for res'
    using that assms(1)
  proof (rule for_loop_invariant)
    fix l l' assume "flag_linked l" "addCallback_iter callback t this l = Continue l'"
    then show "flag_linked l'"
      using flag_linked_addCallback_iter[of l callback t this] by simp
  next
    fix l res' assume "flag_linked l" "addCallback_iter callback t this l = Break res'"
    then show "flag_linked (snd res')"
      using flag_linked_addCallback_iter[of l callback t this] by simp
  qed
  show ?thesis
    using assms loop[of res] by (auto simp: addCallback_def Let_def split: if_splits)
qed

lemma flag_linked_returning:
  assumes "flag_linked s" and "returning x (addCallback callback t this s) = Some res"
  shows "flag_linked (snd res)"
proof (cases "addCallback callback t this s")
  case None
  then show ?thesis using assms(2) by (simp add: returning_def)
next
  case (Some res')
  from flag_linked_addCallback[OF assms(1) Some] show ?thesis
    using assms(2) Some by (auto simp: returning_def split: prod.splits sum.splits)
qed

lemma loadVal_NewPromise:
  "loadVal this s = Inr v \<Longrightarrow> loadVal this (snd (NewPromise s)) = Inr v"
  by (erule loadVal_deref)
     (simp add: loadVal_def LoadPointer_val_def deref_Future_def NewPromise_eq nth_append)

lemma deref_futureVal_NewPromise:
  "deref_futureVal v s = Inr fv \<Longrightarrow> deref_futureVal v (snd (NewPromise s)) = Inr fv"
  by (erule deref_futureVal_Some) (simp add: deref_futureVal_def NewPromise_eq nth_append)

lemma flag_linked_Pipe_iter:
  assumes inv: "flag_linked (snd l)"
  shows "case Pipe_iter callbacks this l of
           Break res \<Rightarrow> flag_linked (snd res)
         | Continue l' \<Rightarrow> flag_linked (snd l')"
proof -
  obtain result' s where l: "l = (result', s)" by (cases l)
  with inv have inv: "flag_linked s" by simp
  show ?thesis
  proof (cases "loadVal this s")
    case (Inl e)
    then show ?thesis using inv l by (simp add: Pipe_iter_def)
  next
    case lv: (Inr v)
    show ?thesis
    proof (cases "deref_futureVal v s")
      case (Inl e)
      then show ?thesis using inv lv l by (simp add: Pipe_iter_def)
    next
      case dv: (Inr fv)
      show ?thesis
      proof (cases "r fv")
        case (Some res)
        then show ?thesis
          using inv lv dv l by (simp add: Pipe_iter_def split_beta split: sum.split)
      next
        case None
        have pub: "flag_linked (snd (CompareAndSwapPointer_val this v
                 (fst (new_futureVal nv (snd (NewPromise s)))) (snd (new_futureVal nv (snd (NewPromise s))))))"
          if "is_Cancelled nv = is_Cancelled fv" for nv
          using flag_linked_publish[OF flag_linked_NewPromise[OF inv] loadVal_NewPromise[OF lv]
            deref_futureVal_NewPromise[OF dv] that] .
        have same: "is_Cancelled (fv\<lparr>pipes := ps\<rparr>) = is_Cancelled fv" for ps
          by (simp add: is_Cancelled_def)
        show ?thesis
          using lv dv None l
          by (simp add: Pipe_iter_def split_beta Let_def pub same split: sum.split option.split)
      qed
    qed
  qed
qed

lemma flag_linked_Pipe:
  assumes "flag_linked s" and "Pipe callbacks this s = Some res"
  shows "flag_linked (snd res)"
proof -
  have loop: "flag_linked (snd res')"
    if "for_loop (Pipe_iter callbacks this) (None, s) = Some res'" for res'
    using that
  proof (rule for_loop_invariant[where I = "\<lambda>l. flag_linked (snd l)"])
    show "flag_linked (snd (None, s))" using assms(1) by simp
  next
    fix l l' assume "flag_linked (snd l)" "Pipe_iter callbacks this l = Continue l'"
    then show "flag_linked (snd l')"
      using flag_linked_Pipe_iter[of l callbacks this] by simp
  next
    fix l res' assume "flag_linked (snd l)" "Pipe_iter callbacks this l = Break res'"
    then show "flag_linked (snd res')"
      using flag_linked_Pipe_iter[of l callbacks this] by simp
  qed
  show ?thesis
    using assms loop
    by (auto simp: Pipe_def split: if_splits option.splits prod.splits sum.splits)
qed

lemma flag_linked_RequestCancel:
  assumes inv: "flag_linked s"
  shows "flag_linked (snd (RequestCancel this s))"
proof (cases "deref_Future this s")
  case (Inl e)
  then show ?thesis using inv by (simp add: RequestCancel_def LoadInt32_cancelStatus_def)
next
  case (Inr f)
  from flag_linked_deref[OF inv Inr] obtain p where
    p: "val f = Some p" "p < length (futureVals s)" "(cancelStatus f = 2) = is_Cancelled (futureVals s ! p)"
    by blast
  show ?thesis
  proof (cases "cancelStatus f = 0")
    case True
    with p have "\<not> is_Cancelled (futureVals s ! p)" by auto
    then have "flag_linked (store_Future a (f\<lparr>cancelStatus := 1\<rparr>) s)" for a
      using p by (intro flag_linked_store[OF inv, where p = p]) simp_all
    then show ?thesis
      using Inr True inv
      by (auto simp: RequestCancel_def LoadInt32_cancelStatus_def CompareAndSwapInt32_cancelStatus_def
          split: option.splits)
  next
    case False
    then show ?thesis using inv Inr by (simp add: RequestCancel_def LoadInt32_cancelStatus_def)
  qed
qed

lemma flag_linked_recv_chEnd_then_result:
  assumes inv: "flag_linked s" and "recv_chEnd_then_result this s = Some res"
  shows "flag_linked (snd res)"
proof (cases "deref_Future this s")
  case (Inl e)
  then show ?thesis
    using assms by (auto simp: recv_chEnd_then_result_def split: option.splits)
next
  case (Inr f)
  from flag_linked_deref[OF inv Inr] obtain p where
    p: "val f = Some p" "p < length (futureVals s)" "(cancelStatus f = 2) = is_Cancelled (futureVals s ! p)"
    by blast
  have "flag_linked (store_Future a (f\<lparr>chEnd := c\<rparr>) s)" for a c
    using p by (intro flag_linked_store[OF inv, where p = p]) simp_all
  then show ?thesis
    using assms Inr
    by (auto simp: recv_chEnd_then_result_def Let_def split: option.splits sum.splits prod.splits)
qed

lemma flag_linked_GetOrTimeout:
  assumes "flag_linked s" and "GetOrTimeout fired mm this s = Some res"
  shows "flag_linked (snd res)"
proof -
  let ?s1 = "s\<lparr>calls := calls s @ [Time_After (if mm = 0 then 10 else mm * 1000 * 1000)]\<rparr>"
  have s1: "flag_linked ?s1" using assms(1) by simp
  show ?thesis
    using assms(2) s1 flag_linked_recv_chEnd_then_result[OF s1, of this]
    by (auto simp: GetOrTimeout_def Let_def
        split: sum.splits select_case.splits option.splits prod.splits)
qed

lemma flag_linked_call_method:
  assumes "flag_linked s" and "call_method m this s = Some s'"
  shows "flag_linked s'"
proof (cases m)
  case M_RequestCancel
  then show ?thesis using assms flag_linked_RequestCancel[OF assms(1), of this] by (auto simp: call_method_def)
next
  case M_Get
  then show ?thesis
    using assms flag_linked_recv_chEnd_then_result[OF assms(1), of this] by (auto simp: call_method_def Get_def)
next
  case (M_GetOrTimeout fired mm)
  then show ?thesis
    using assms flag_linked_GetOrTimeout[OF assms(1), of fired mm this] by (auto simp: call_method_def)
next
  case (M_OnSuccess cb)
  then show ?thesis
    using assms flag_linked_returning[OF assms(1), of this "Func_v cb" CALLBACK_DONE this]
    by (auto simp: call_method_def OnSuccess_def)
next
  case (M_OnFailure cb)
  then show ?thesis
    using assms flag_linked_returning[OF assms(1), of this "Func_v cb" CALLBACK_FAIL this]
    by (auto simp: call_method_def OnFailure_def)
next
  case (M_OnComplete cb)
  then show ?thesis
    using assms flag_linked_returning[OF assms(1), of this "Func_v cb" CALLBACK_ALWAYS this]
    by (auto simp: call_method_def OnComplete_def)
next
  case (M_OnCancel cb)
  then show ?thesis
    using assms flag_linked_returning[OF assms(1), of this "Func_0 cb" CALLBACK_CANCEL this]
    by (auto simp: call_method_def OnCancel_def)
next
  case (M_Pipe cbs)
  then show ?thesis
    using assms flag_linked_Pipe[OF assms(1), of cbs this] by (auto simp: call_method_def)
qed (use assms in \<open>auto simp: call_method_def\<close>)

text \<open>The settle operations.\<close>

lemma call_all_funcV_frame:
  "futures (snd (call_all_funcV cs x s)) = futures s \<and>
   futureVals (snd (call_all_funcV cs x s)) = futureVals s"
  by (induction cs arbitrary: s)
     (auto simp: call_funcV_def split: option.splits prod.splits sum.splits)

lemma call_all_func0_frame:
  "futures (snd (call_all_func0 cs s)) = futures s \<and>
   futureVals (snd (call_all_func0 cs s)) = futureVals s"
  by (induction cs arbitrary: s)
     (auto simp: call_func0_def split: option.splits prod.splits sum.splits)

lemma fire_pipes_frame:
  "futures (snd (fire_pipes ps res s)) = futures s \<and>
   futureVals (snd (fire_pipes ps res s)) = futureVals s"
  by (induction ps arbitrary: s)
     (auto simp: call_task_def split: option.splits prod.splits sum.splits task.splits)

lemma drain_frame:
  "futures (snd (drain res displaced s)) = futures s \<and>
   futureVals (snd (drain res displaced s)) = futureVals s"
proof -
  have 1: "futures (snd (case p of (Inl e, s1) \<Rightarrow> (Inl e, s1)
                        | (Inr u, s1) \<Rightarrow> fire_pipes ps res s1)) = futures (snd p) \<and>
           futureVals (snd (case p of (Inl e, s1) \<Rightarrow> (Inl e, s1)
                        | (Inr u, s1) \<Rightarrow> fire_pipes ps res s1)) = futureVals (snd p)"
    for p :: "(error + unit) \<times> state" and ps
    using fire_pipes_frame by (cases p) (auto split: sum.splits)
  show ?thesis
    unfolding drain_def
    by (cases "Typ res") (simp_all add: 1 call_all_funcV_frame call_all_func0_frame)
qed

text \<open>
  The state in which a settle of a pending Future ends: the terminal snapshot is
  published, the completion channel is closed, and the flag is 2 when the kind is
  Cancelled; the calls of the drain follow.
\<close>

lemma settle_iter_pending:
  assumes "this = Some a" "a < length (futures s)" "futures s ! a = f"
    "val f = Some p" "p < length (futureVals s)" "futureVals s ! p = fv" "r fv = None"
  shows "\<exists>x s'. settle_iter res this s = Break (x, s') \<and>
           futureVals s' = futureVals s @ [empty_futureVal\<lparr>r := Some res\<rparr>] \<and>
           futures s' = (futures s)[a := f\<lparr>val := Some (length (futureVals s)),
                                           chEnd := (chEnd f)\<lparr>closed := True\<rparr>,
                                           cancelStatus := (if Typ res = RESULT_CANCELLED then 2
                                                            else cancelStatus f)\<rparr>]"
proof -
  let ?s3 = "s\<lparr>futureVals := futureVals s @ [empty_futureVal\<lparr>r := Some res\<rparr>],
               futures := (futures s)[a := f\<lparr>val := Some (length (futureVals s)),
                                           chEnd := (chEnd f)\<lparr>closed := True\<rparr>,
                                           cancelStatus := (if Typ res = RESULT_CANCELLED then 2
                                                            else cancelStatus f)\<rparr>]\<rparr>"
  have "settle_iter res this s = Break (drain res fv ?s3)"
    using assms
    by (simp add: settle_iter_def loadVal_def LoadPointer_val_def deref_Future_def deref_futureVal_def
        new_futureVal_def CompareAndSwapPointer_val_def store_Future_def fire_completion_def)
  then show ?thesis
    using drain_frame[of res fv ?s3] by (cases "drain res fv ?s3") auto
qed

lemma flag_linked_settle_iter:
  assumes inv: "flag_linked s"
  shows "case settle_iter res this s of
           Break res' \<Rightarrow> flag_linked (snd res')
         | Continue s' \<Rightarrow> flag_linked s'"
proof (cases "loadVal this s")
  case (Inl e)
  then show ?thesis using inv by (simp add: settle_iter_def)
next
  case lv: (Inr v)
  show ?thesis
  proof (cases "deref_futureVal v s")
    case (Inl e)
    then show ?thesis using inv lv by (simp add: settle_iter_def)
  next
    case dv: (Inr fv)
    show ?thesis
    proof (cases "r fv")
      case (Some terminal)
      then show ?thesis using inv lv dv by (simp add: settle_iter_def)
    next
      case None
      obtain a f where a: "this = Some a" "a < length (futures s)" "futures s ! a = f" "val f = v"
        "deref_Future this s = Inr f"
        using lv by (rule loadVal_deref)
      obtain p where p: "v = Some p" "p < length (futureVals s)" "futureVals s ! p = fv"
        using dv by (rule deref_futureVal_Some)
      from settle_iter_pending[OF a(1,2,3) _ p(2,3) None, of res] a(4) p(1)
      obtain x s' where s': "settle_iter res this s = Break (x, s')"
        "futureVals s' = futureVals s @ [empty_futureVal\<lparr>r := Some res\<rparr>]"
        "futures s' = (futures s)[a := f\<lparr>val := Some (length (futureVals s)),
                                           chEnd := (chEnd f)\<lparr>closed := True\<rparr>,
                                           cancelStatus := (if Typ res = RESULT_CANCELLED then 2
                                                            else cancelStatus f)\<rparr>]"
        by auto
      from flag_linked_deref[OF inv a(5)] a(4) p None
      have not2: "cancelStatus f \<noteq> 2" by (auto simp: is_Cancelled_def)
      let ?t = "store_Future a (f\<lparr>val := Some (length (futureVals s)),
                                           chEnd := (chEnd f)\<lparr>closed := True\<rparr>,
                                           cancelStatus := (if Typ res = RESULT_CANCELLED then 2
                                                            else cancelStatus f)\<rparr>)
                 (snd (new_futureVal (empty_futureVal\<lparr>r := Some res\<rparr>) s))"
      have "flag_linked ?t"
        by (rule flag_linked_store[OF flag_linked_new_futureVal[OF inv], where p = "length (futureVals s)"])
           (use not2 in \<open>simp_all add: new_futureVal_def is_Cancelled_def\<close>)
      moreover have "futures s' = futures ?t" "futureVals s' = futureVals ?t"
        using s'(2,3) by (simp_all add: store_Future_def new_futureVal_def)
      ultimately have "flag_linked s'" using flag_linked_frame by blast
      then show ?thesis using s'(1) by simp
    qed
  qed
qed

lemma flag_linked_settle:
  assumes "flag_linked s" and "settle res pr s = Some res'"
  shows "flag_linked (snd res')"
  using assms(2)[unfolded settle_def] assms(1)
proof (rule for_loop_invariant)
  fix l l' assume "flag_linked l" "settle_iter res (Future pr) l = Continue l'"
  then show "flag_linked l'"
    using flag_linked_settle_iter[of l res "Future pr"] by simp
next
  fix l res' assume "flag_linked l" "settle_iter res (Future pr) l = Break res'"
  then show "flag_linked (snd res')"
    using flag_linked_settle_iter[of l res "Future pr"] by simp
qed

lemma reachable_flag_linked: "reachable s \<Longrightarrow> flag_linked s"
proof (induction rule: reachable.induct)
  case start
  show ?case by (rule flag_linked_init)
next
  case (new s)
  then show ?case by (simp add: flag_linked_NewPromise)
next
  case (call s m this s')
  then show ?case using flag_linked_call_method by blast
next
  case (resolve s v pr x s')
  then show ?case using flag_linked_settle[of s _ pr "(x, s')"] by (simp add: Resolve_def)
next
  case (reject s err pr x s')
  then show ?case using flag_linked_settle[of s _ pr "(x, s')"] by (simp add: Reject_def)
next
  case (cancel s pr x s')
  then show ?case using flag_linked_settle[of s _ pr "(x, s')"] by (simp add: Cancel_def)
qed

section \<open>A settle of a pending Future, and waiting after it\<close>

lemma settle_pending:
  assumes "snapshot this s = Some fv" and "r fv = None"
  shows "\<exists>x s' f'. settle res \<lparr>Future = this\<rparr> s = Some (x, s') \<and>
           snapshot this s' = Some (empty_futureVal\<lparr>r := Some res\<rparr>) \<and>
           deref_Future this s' = Inr f' \<and> closed (chEnd f')"
proof -
  obtain a f p where a: "this = Some a" "a < length (futures s)" "futures s ! a = f"
    "val f = Some p" "p < length (futureVals s)" "futureVals s ! p = fv"
    using assms(1) by (rule snapshot_SomeD)
  from settle_iter_pending[OF a assms(2), of res]
  obtain x s' where s': "settle_iter res this s = Break (x, s')"
    "futureVals s' = futureVals s @ [empty_futureVal\<lparr>r := Some res\<rparr>]"
    "futures s' = (futures s)[a := f\<lparr>val := Some (length (futureVals s)),
                                       chEnd := (chEnd f)\<lparr>closed := True\<rparr>,
                                       cancelStatus := (if Typ res = RESULT_CANCELLED then 2
                                                        else cancelStatus f)\<rparr>]"
    by blast
  have 1: "settle res \<lparr>Future = this\<rparr> s = Some (x, s')"
    unfolding settle_def using s'(1) by (simp add: for_loop_Break)
  have 2: "snapshot this s' = Some (empty_futureVal\<lparr>r := Some res\<rparr>)"
    using a s'(2,3)
    by (simp add: snapshot_def loadVal_def LoadPointer_val_def deref_Future_def deref_futureVal_def)
  have 3: "deref_Future this s' =
             Inr (f\<lparr>val := Some (length (futureVals s)),
                    chEnd := (chEnd f)\<lparr>closed := True\<rparr>,
                    cancelStatus := (if Typ res = RESULT_CANCELLED then 2 else cancelStatus f)\<rparr>)"
    using a s'(3) by (simp add: deref_Future_def)
  from 1 2 3 show ?thesis by simp
qed

text \<open>
  On a settled Future whose completion channel is closed, the receive returns and the
  pair of the Result is read.
\<close>

lemma recv_chEnd_then_result_settled:
  assumes snap: "snapshot this s = Some fv" and res: "r fv = Some res"
    and d: "deref_Future this s = Inr f" and cl: "closed (chEnd f)"
  shows "map_option fst (recv_chEnd_then_result this s) = Some (getFutureReturnVal (Some res))"
proof -
  obtain a f0 p where a: "this = Some a" "a < length (futures s)" "futures s ! a = f0"
    "val f0 = Some p" "p < length (futureVals s)" "futureVals s ! p = fv"
    using snap by (rule snapshot_SomeD)
  have f0: "f0 = f" using a d by (simp add: deref_Future_def)
  obtain x c where rc: "recv (chEnd f) = Some (x, c)"
    using cl by (cases "buf (chEnd f)") (simp_all add: recv_def)
  have "result this (store_Future a (f\<lparr>chEnd := c\<rparr>) s) = Inr (Some res)"
    using a f0 res
    by (simp add: result_def loadVal_def LoadPointer_val_def deref_Future_def deref_futureVal_def
        store_Future_def)
  moreover obtain ve where "getFutureReturnVal (Some res) = Inr ve"
    by (cases "Typ res") (simp_all add: getFutureReturnVal_def)
  ultimately show ?thesis
    using a d rc by (simp add: recv_chEnd_then_result_def Let_def)
qed

lemma reachable_pending_state: "reachable pending_state"
  unfolding pending_state_def by (rule reachable.new[OF reachable.start])

section \<open>Claims\<close>

text \<open>
  C7. \<^verbatim>\<open>RequestCancel\<close> on a Future whose flag is NotRequested (0) returns true and leaves
  the flag at Requested (1), nothing else of the state changed; a second call right
  after it returns false and changes nothing. On a Future whose flag is not 0 it returns
  false and changes nothing.
\<close>

theorem RequestCancel_transition:
  assumes "deref_Future this s = Inr f"
  shows "(cancelStatus f = 0 \<longrightarrow>
           (\<exists>a s'. this = Some a \<and> s' = store_Future a (f\<lparr>cancelStatus := 1\<rparr>) s \<and>
                 RequestCancel this s = (Inr True, s') \<and>
                 LoadInt32_cancelStatus this s' = Inr 1 \<and>
                 RequestCancel this s' = (Inr False, s'))) \<and>
         (cancelStatus f \<noteq> 0 \<longrightarrow> RequestCancel this s = (Inr False, s))"
proof -
  from assms obtain a where a: "this = Some a" "a < length (futures s)" "futures s ! a = f"
    using deref_Future_Some by blast
  show ?thesis
    using assms a
    by (simp add: RequestCancel_def LoadInt32_cancelStatus_def CompareAndSwapInt32_cancelStatus_def
        deref_Future_def store_Future_def)
qed

theorem RequestCancel_transition_witness:
  "(\<exists>s'. RequestCancel (Some 0) pending_state = (Inr True, s') \<and>
         LoadInt32_cancelStatus (Some 0) s' = Inr 1 \<and>
         RequestCancel (Some 0) s' = (Inr False, s')) \<and>
   RequestCancel (Some 0) (snd (RequestCancel (Some 0) pending_state)) =
     (Inr False, snd (RequestCancel (Some 0) pending_state))"
proof -
  let ?f = "\<lparr>Id_ = 0, chOut = \<lparr>buf = [], closed = False\<rparr>,
            chEnd = \<lparr>buf = [], closed = False\<rparr>, val = Some 0, cancelStatus = 0 :: 32 word\<rparr>"
  let ?s1 = "store_Future 0 (?f\<lparr>cancelStatus := 1\<rparr>) pending_state"
  have 1: "RequestCancel (Some 0) pending_state = (Inr True, ?s1) \<and>
           LoadInt32_cancelStatus (Some 0) ?s1 = Inr 1 \<and>
           RequestCancel (Some 0) ?s1 = (Inr False, ?s1)"
    using RequestCancel_transition[OF deref_pending_state] by simp
  have d: "deref_Future (Some 0) ?s1 = Inr (?f\<lparr>cancelStatus := 1\<rparr>)"
    by (simp add: deref_Future_def store_Future_def pending_state_eq)
  have 2: "RequestCancel (Some 0) ?s1 = (Inr False, ?s1)"
    using RequestCancel_transition[OF d] by simp
  from 1 2 show ?thesis by simp
qed

text \<open>
  C8. In every state that the program can reach, \<^verbatim>\<open>IsCancelled\<close> returns true exactly when
  the Future is settled with outcome Cancelled, and that is exactly when its flag holds
  the value 2. So it returns false for every pending Future, and on a Future that is
  not settled as Cancelled any number of calls of \<^verbatim>\<open>RequestCancel\<close> leaves the answer at
  false. The settle operations that the reachable states are built with are those of the
  section on settling a Promise.
\<close>

theorem IsCancelled_iff_settled_Cancelled:
  assumes "reachable s" and "snapshot this s = Some fv"
  shows "IsCancelled this s = Inr (\<exists>res. r fv = Some res \<and> Typ res = RESULT_CANCELLED) \<and>
         (\<exists>f. deref_Future this s = Inr f \<and>
              (cancelStatus f = 2) = (\<exists>res. r fv = Some res \<and> Typ res = RESULT_CANCELLED)) \<and>
         (r fv = None \<longrightarrow> IsCancelled this s = Inr False) \<and>
         ((\<forall>res. r fv = Some res \<longrightarrow> Typ res \<noteq> RESULT_CANCELLED) \<longrightarrow>
            IsCancelled this (RequestCancel_times n this s) = Inr False)"
proof -
  obtain a f p where a: "this = Some a" "a < length (futures s)" "futures s ! a = f"
    "val f = Some p" "p < length (futureVals s)" "futureVals s ! p = fv"
    using assms(2) by (rule snapshot_SomeD)
  have d: "deref_Future this s = Inr f"
    using a by (simp add: deref_Future_def)
  from flag_linked_deref[OF reachable_flag_linked[OF assms(1)] d] a
  have "(cancelStatus f = 2) = is_Cancelled fv" by auto
  then have link: "(cancelStatus f = 2) = (\<exists>res. r fv = Some res \<and> Typ res = RESULT_CANCELLED)"
    by (simp add: is_Cancelled_def split: option.splits)
  have 1: "IsCancelled this s = Inr (\<exists>res. r fv = Some res \<and> Typ res = RESULT_CANCELLED)"
    using d link by (simp add: IsCancelled_def LoadInt32_cancelStatus_def)
  have 3: "IsCancelled this (RequestCancel_times n this s) = Inr False"
    if "\<forall>res. r fv = Some res \<longrightarrow> Typ res \<noteq> RESULT_CANCELLED"
  proof -
    from that link have "cancelStatus f \<noteq> 2" by auto
    from RequestCancel_times_keeps_not_2[OF d this, of n] obtain f' where
      "deref_Future this (RequestCancel_times n this s) = Inr f'" "cancelStatus f' \<noteq> 2" by blast
    then show ?thesis by (simp add: IsCancelled_def LoadInt32_cancelStatus_def)
  qed
  from 1 d link 3 show ?thesis by auto
qed

theorem IsCancelled_iff_settled_Cancelled_witness:
  "reachable pending_state \<and>
   snapshot (Some 0) pending_state = Some empty_futureVal \<and>
   IsCancelled (Some 0) pending_state = Inr False \<and>
   IsCancelled (Some 0) (RequestCancel_times 3 (Some 0) pending_state) = Inr False \<and>
   (\<exists>x s'. Cancel \<lparr>Future = Some 0\<rparr> pending_state = Some (x, s') \<and> reachable s' \<and>
           snapshot (Some 0) s' = Some (empty_futureVal\<lparr>r := Some \<lparr>Result = ANil, Typ = RESULT_CANCELLED\<rparr>\<rparr>) \<and>
           IsCancelled (Some 0) s' = Inr True) \<and>
   (\<exists>x s'. Resolve (AInt 5) \<lparr>Future = Some 0\<rparr> pending_state = Some (x, s') \<and> reachable s' \<and>
           snapshot (Some 0) s' = Some (empty_futureVal\<lparr>r := Some \<lparr>Result = AInt 5, Typ = RESULT_SUCCESS\<rparr>\<rparr>) \<and>
           IsCancelled (Some 0) s' = Inr False)"
proof -
  have e: "r empty_futureVal = None" by (simp add: empty_futureVal_def)
  note rp = reachable_pending_state
  have p: "IsCancelled (Some 0) pending_state = Inr False \<and>
           IsCancelled (Some 0) (RequestCancel_times 3 (Some 0) pending_state) = Inr False"
    using IsCancelled_iff_settled_Cancelled[OF rp snapshot_pending_state, of 3] by (simp add: e)
  obtain x s' where c: "Cancel \<lparr>Future = Some 0\<rparr> pending_state = Some (x, s')"
    "snapshot (Some 0) s' = Some (empty_futureVal\<lparr>r := Some \<lparr>Result = ANil, Typ = RESULT_CANCELLED\<rparr>\<rparr>)"
    using settle_pending[OF snapshot_pending_state e, of "\<lparr>Result = ANil, Typ = RESULT_CANCELLED\<rparr>"]
    by (auto simp: Cancel_def)
  have rc: "reachable s'" by (rule reachable.cancel[OF rp c(1)])
  have ic: "IsCancelled (Some 0) s' = Inr True"
    using IsCancelled_iff_settled_Cancelled[OF rc c(2), of 0] by simp
  obtain y t' where v: "Resolve (AInt 5) \<lparr>Future = Some 0\<rparr> pending_state = Some (y, t')"
    "snapshot (Some 0) t' = Some (empty_futureVal\<lparr>r := Some \<lparr>Result = AInt 5, Typ = RESULT_SUCCESS\<rparr>\<rparr>)"
    using settle_pending[OF snapshot_pending_state e, of "\<lparr>Result = AInt 5, Typ = RESULT_SUCCESS\<rparr>"]
    by (auto simp: Resolve_def)
  have rv: "reachable t'" by (rule reachable.resolve[OF rp v(1)])
  have iv: "IsCancelled (Some 0) t' = Inr False"
    using IsCancelled_iff_settled_Cancelled[OF rv v(2), of 0] by simp
  from rp snapshot_pending_state p c rc ic v rv iv show ?thesis by blast
qed

text \<open>
  C10. A callback that is not the nil interface and whose dynamic type is not the one
  of the registration (\<^verbatim>\<open>func(v interface{})\<close> for DONE, FAIL and ALWAYS, \<^verbatim>\<open>func()\<close> for
  CANCEL) makes \<^verbatim>\<open>addCallback\<close> panic with the message of its kind. The state is the one
  of the call, and the receiver is not read: the panic is the same for a nil receiver.
\<close>

theorem addCallback_wrong_type_panics:
  assumes "callback \<noteq> Nil_iface"
  shows "((t = CALLBACK_DONE \<or> t = CALLBACK_FAIL \<or> t = CALLBACK_ALWAYS) \<and>
          (\<forall>f. callback \<noteq> Func_v f) \<longrightarrow>
            addCallback callback t this s =
              Some (Inl (Panic ''Callback function spec must be func(v interface{})''), s)) \<and>
         (t = CALLBACK_CANCEL \<and> (\<forall>f. callback \<noteq> Func_0 f) \<longrightarrow>
            addCallback callback t this s =
              Some (Inl (Panic ''Callback function spec must be func()''), s))"
  using assms by (cases callback) (auto simp: addCallback_def ok_funcV_def ok_func0_def)

theorem addCallback_wrong_type_panics_witness:
  "addCallback (Other (AInt 3)) CALLBACK_DONE (Some 0) pending_state =
     Some (Inl (Panic ''Callback function spec must be func(v interface{})''), pending_state) \<and>
   addCallback (Func_v (Some (FuncV 1))) CALLBACK_CANCEL None pending_state =
     Some (Inl (Panic ''Callback function spec must be func()''), pending_state)"
  using addCallback_wrong_type_panics[of "Other (AInt 3)" CALLBACK_DONE "Some 0" pending_state]
    addCallback_wrong_type_panics[of "Func_v (Some (FuncV 1))" CALLBACK_CANCEL None pending_state]
  by simp

text \<open>
  C4. On a pending Future a registration of a non-nil callback publishes a new snapshot
  that is the old one with the callback appended at the end of the list of its kind
  (\<open>dones\<close> for \<^verbatim>\<open>OnSuccess\<close>, \<open>fails\<close> for \<^verbatim>\<open>OnFailure\<close>, \<open>always\<close> for \<^verbatim>\<open>OnComplete\<close>, \<open>cancels\<close>
  for \<^verbatim>\<open>OnCancel\<close>); the other lists, the pipes and the absent Result are those of the old
  snapshot. The call returns the receiver and calls no function.
\<close>

theorem registration_on_pending_appends:
  assumes "snapshot this s = Some fv" and "r fv = None"
  shows "(let s' = install this (fv\<lparr>dones := dones fv @ [Some f]\<rparr>) s in
            OnSuccess (Some f) this s = Some (Inr this, s') \<and>
            snapshot this s' = Some (fv\<lparr>dones := dones fv @ [Some f]\<rparr>) \<and> calls s' = calls s) \<and>
         (let s' = install this (fv\<lparr>fails := fails fv @ [Some f]\<rparr>) s in
            OnFailure (Some f) this s = Some (Inr this, s') \<and>
            snapshot this s' = Some (fv\<lparr>fails := fails fv @ [Some f]\<rparr>) \<and> calls s' = calls s) \<and>
         (let s' = install this (fv\<lparr>always := always fv @ [Some f]\<rparr>) s in
            OnComplete (Some f) this s = Some (Inr this, s') \<and>
            snapshot this s' = Some (fv\<lparr>always := always fv @ [Some f]\<rparr>) \<and> calls s' = calls s) \<and>
         (let s' = install this (fv\<lparr>cancels := cancels fv @ [Some g]\<rparr>) s in
            OnCancel (Some g) this s = Some (Inr this, s') \<and>
            snapshot this s' = Some (fv\<lparr>cancels := cancels fv @ [Some g]\<rparr>) \<and> calls s' = calls s)"
proof -
  have 1: "OnSuccess (Some f) this s = Some (Inr this, install this (fv\<lparr>dones := dones fv @ [Some f]\<rparr>) s)"
    unfolding OnSuccess_def
    by (subst addCallback_pending[OF assms]) (simp_all add: append_callback_def assert_funcV_def returning_def)
  have 2: "OnFailure (Some f) this s = Some (Inr this, install this (fv\<lparr>fails := fails fv @ [Some f]\<rparr>) s)"
    unfolding OnFailure_def
    by (subst addCallback_pending[OF assms]) (simp_all add: append_callback_def assert_funcV_def returning_def)
  have 3: "OnComplete (Some f) this s = Some (Inr this, install this (fv\<lparr>always := always fv @ [Some f]\<rparr>) s)"
    unfolding OnComplete_def
    by (subst addCallback_pending[OF assms]) (simp_all add: append_callback_def assert_funcV_def returning_def)
  have 4: "OnCancel (Some g) this s = Some (Inr this, install this (fv\<lparr>cancels := cancels fv @ [Some g]\<rparr>) s)"
    unfolding OnCancel_def
    by (subst addCallback_pending[OF assms]) (simp_all add: append_callback_def assert_func0_def returning_def)
  show ?thesis
    using 1 2 3 4 by (simp add: Let_def snapshot_install[OF assms(1)])
qed

theorem registration_on_pending_appends_witness:
  "snapshot (Some 0) pending_state = Some empty_futureVal \<and> r empty_futureVal = None \<and>
   (\<exists>s'. OnSuccess (Some (FuncV 1)) (Some 0) pending_state = Some (Inr (Some 0), s') \<and>
          snapshot (Some 0) s' = Some (empty_futureVal\<lparr>dones := [Some (FuncV 1)]\<rparr>) \<and> calls s' = []) \<and>
   (\<exists>s'. OnCancel (Some (Func0 2)) (Some 0) pending_state = Some (Inr (Some 0), s') \<and>
          snapshot (Some 0) s' = Some (empty_futureVal\<lparr>cancels := [Some (Func0 2)]\<rparr>) \<and> calls s' = [])"
proof -
  have e: "r empty_futureVal = None" "dones empty_futureVal = []" "cancels empty_futureVal = []"
    by (simp_all add: empty_futureVal_def)
  have c: "calls pending_state = []"
    by (simp add: pending_state_eq)
  show ?thesis
    using registration_on_pending_appends[OF snapshot_pending_state e(1), of "FuncV 1" "Func0 2"]
    by (simp add: Let_def e c snapshot_pending_state)
qed

text \<open>
  C3. On a Future that is settled with a Result of the kind of the registration (Success
  for \<^verbatim>\<open>OnSuccess\<close>, Failure for \<^verbatim>\<open>OnFailure\<close>, Success or Failure for \<^verbatim>\<open>OnComplete\<close>, Cancelled
  for \<^verbatim>\<open>OnCancel\<close>) a registration of a non-nil callback calls it once, with the payload of
  the Result (with no argument for \<^verbatim>\<open>OnCancel\<close>), before it returns the receiver. The call
  is the only change of the state: no Future and no snapshot is written.
\<close>

theorem registration_on_settled_calls_once:
  assumes "snapshot this s = Some fv" and "r fv = Some res"
  shows "(Typ res = RESULT_SUCCESS \<longrightarrow>
            OnSuccess (Some f) this s =
              Some (Inr this, s\<lparr>calls := calls s @ [Call_funcV f (Result res)]\<rparr>)) \<and>
         (Typ res = RESULT_FAILURE \<longrightarrow>
            OnFailure (Some f) this s =
              Some (Inr this, s\<lparr>calls := calls s @ [Call_funcV f (Result res)]\<rparr>)) \<and>
         (Typ res = RESULT_SUCCESS \<or> Typ res = RESULT_FAILURE \<longrightarrow>
            OnComplete (Some f) this s =
              Some (Inr this, s\<lparr>calls := calls s @ [Call_funcV f (Result res)]\<rparr>)) \<and>
         (Typ res = RESULT_CANCELLED \<longrightarrow>
            OnCancel (Some g) this s = Some (Inr this, s\<lparr>calls := calls s @ [Call_func0 g]\<rparr>))"
proof (intro conjI impI)
  assume "Typ res = RESULT_SUCCESS"
  then show "OnSuccess (Some f) this s =
      Some (Inr this, s\<lparr>calls := calls s @ [Call_funcV f (Result res)]\<rparr>)"
    unfolding OnSuccess_def
    by (subst addCallback_settled_funcV[OF assms]) (simp_all add: call_funcV_def returning_def)
next
  assume "Typ res = RESULT_FAILURE"
  then show "OnFailure (Some f) this s =
      Some (Inr this, s\<lparr>calls := calls s @ [Call_funcV f (Result res)]\<rparr>)"
    unfolding OnFailure_def
    by (subst addCallback_settled_funcV[OF assms]) (simp_all add: call_funcV_def returning_def)
next
  assume "Typ res = RESULT_SUCCESS \<or> Typ res = RESULT_FAILURE"
  then show "OnComplete (Some f) this s =
      Some (Inr this, s\<lparr>calls := calls s @ [Call_funcV f (Result res)]\<rparr>)"
    unfolding OnComplete_def
    by (subst addCallback_settled_funcV[OF assms]) (auto simp: call_funcV_def returning_def)
next
  assume "Typ res = RESULT_CANCELLED"
  then show "OnCancel (Some g) this s = Some (Inr this, s\<lparr>calls := calls s @ [Call_func0 g]\<rparr>)"
    unfolding OnCancel_def
    by (subst addCallback_settled_func0[OF assms]) (simp_all add: call_func0_def returning_def)
qed

theorem registration_on_settled_calls_once_witness:
  "OnSuccess (Some (FuncV 1)) (Some 0) (settled_state \<lparr>Result = AInt 5, Typ = RESULT_SUCCESS\<rparr>) =
     Some (Inr (Some 0),
           (settled_state \<lparr>Result = AInt 5, Typ = RESULT_SUCCESS\<rparr>)\<lparr>calls := [Call_funcV (FuncV 1) (AInt 5)]\<rparr>) \<and>
   OnComplete (Some (FuncV 1)) (Some 0) (settled_state \<lparr>Result = AInt 5, Typ = RESULT_SUCCESS\<rparr>) =
     Some (Inr (Some 0),
           (settled_state \<lparr>Result = AInt 5, Typ = RESULT_SUCCESS\<rparr>)\<lparr>calls := [Call_funcV (FuncV 1) (AInt 5)]\<rparr>) \<and>
   OnFailure (Some (FuncV 1)) (Some 0) (settled_state \<lparr>Result = AError ''e'', Typ = RESULT_FAILURE\<rparr>) =
     Some (Inr (Some 0),
           (settled_state \<lparr>Result = AError ''e'', Typ = RESULT_FAILURE\<rparr>)\<lparr>calls := [Call_funcV (FuncV 1) (AError ''e'')]\<rparr>) \<and>
   OnCancel (Some (Func0 2)) (Some 0) (settled_state \<lparr>Result = ANil, Typ = RESULT_CANCELLED\<rparr>) =
     Some (Inr (Some 0),
           (settled_state \<lparr>Result = ANil, Typ = RESULT_CANCELLED\<rparr>)\<lparr>calls := [Call_func0 (Func0 2)]\<rparr>)"
proof -
  have c: "calls (settled_state res) = []" for res
    by (simp add: settled_state_def)
  have e: "r (empty_futureVal\<lparr>r := Some res\<rparr>) = Some res" for res
    by simp
  show ?thesis
    using registration_on_settled_calls_once[OF snapshot_settled_state e,
        of "\<lparr>Result = AInt 5, Typ = RESULT_SUCCESS\<rparr>" "FuncV 1" "Func0 2"]
      registration_on_settled_calls_once[OF snapshot_settled_state e,
        of "\<lparr>Result = AError ''e'', Typ = RESULT_FAILURE\<rparr>" "FuncV 1" "Func0 2"]
      registration_on_settled_calls_once[OF snapshot_settled_state e,
        of "\<lparr>Result = ANil, Typ = RESULT_CANCELLED\<rparr>" "FuncV 1" "Func0 2"]
    by (simp add: c)
qed

text \<open>
  C6. On a pending Future, \<^verbatim>\<open>Pipe\<close> with a non-nil first or second callback creates a new
  Promise, publishes a new snapshot that is the old one with one pipe appended at the
  end of \<open>pipes\<close> (the first callback as success continuation, the second, when there is
  one, as failure continuation, and the new Promise), and returns the Future of the new
  Promise with \<open>ok = true\<close>. That Future is at a fresh address, it is not the receiver,
  and it is pending with empty lists. No function is called.
\<close>

theorem Pipe_on_pending_appends_pipe:
  assumes "snapshot this s = Some fv" and "r fv = None"
    and "callbacks \<noteq> []"
    and "callbacks ! 0 \<noteq> None \<or> (1 < length callbacks \<and> callbacks ! 1 \<noteq> None)"
  shows "\<exists>s' d newPipe.
           Pipe callbacks this s = Some (Inr (Some d, True), s') \<and>
           newPipe = \<lparr>pipeDoneTask = callbacks ! 0,
                      pipeFailTask = (if 1 < length callbacks then callbacks ! 1 else None),
                      pipePromise = Some \<lparr>Future = Some d\<rparr>\<rparr> \<and>
           snapshot this s' = Some (fv\<lparr>pipes := pipes fv @ [newPipe]\<rparr>) \<and>
           d = length (futures s) \<and> Some d \<noteq> this \<and>
           snapshot (Some d) s' = Some empty_futureVal \<and>
           calls s' = calls s"
proof -
  let ?d = "length (futures s)"
  let ?np = "\<lparr>pipeDoneTask = callbacks ! 0,
              pipeFailTask = (if 1 < length callbacks then callbacks ! 1 else None),
              pipePromise = Some \<lparr>Future = Some ?d\<rparr>\<rparr>"
  let ?s1 = "snd (NewPromise s)"
  let ?s' = "install this (fv\<lparr>pipes := pipes fv @ [?np]\<rparr>) ?s1"
  have loop: "for_loop (Pipe_iter callbacks this) (None, s) = Some (Inr (Some ?d), ?s')"
    by (rule for_loop_Break) (rule Pipe_iter_pending[OF assms(1,2)])
  have P: "Pipe callbacks this s = Some (Inr (Some ?d, True), ?s')"
    using loop by (simp add: Pipe_past_guard[OF assms(3,4)])
  obtain a f p where a: "this = Some a" "a < length (futures s)" "futures s ! a = f"
    "val f = Some p" "p < length (futureVals s)" "futureVals s ! p = fv"
    using assms(1) by (rule snapshot_SomeD)
  have s1: "snapshot this ?s1 = Some fv"
    using a by (simp add: snapshot_def NewPromise_eq loadVal_def LoadPointer_val_def
        deref_Future_def deref_futureVal_def nth_append)
  have snap: "snapshot this ?s' = Some (fv\<lparr>pipes := pipes fv @ [?np]\<rparr>)"
    by (rule snapshot_install[OF s1])
  have fresh: "Some ?d \<noteq> this" using a by simp
  have down: "snapshot (Some ?d) ?s' = Some empty_futureVal"
    using a by (simp add: snapshot_def install_def NewPromise_eq loadVal_def LoadPointer_val_def
        deref_Future_def deref_futureVal_def nth_append)
  have c: "calls ?s' = calls s"
    by (simp add: NewPromise_eq)
  from P snap fresh down c show ?thesis by blast
qed

theorem Pipe_on_pending_appends_pipe_witness:
  "\<exists>s'. Pipe [Some (Task 7 (\<lambda>x. None))] (Some 0) pending_state = Some (Inr (Some 1, True), s') \<and>
        snapshot (Some 0) s' =
          Some (empty_futureVal
                 \<lparr>pipes := [\<lparr>pipeDoneTask = Some (Task 7 (\<lambda>x. None)), pipeFailTask = None,
                             pipePromise = Some \<lparr>Future = Some 1\<rparr>\<rparr>]\<rparr>) \<and>
        snapshot (Some 1) s' = Some empty_futureVal \<and> calls s' = []"
proof -
  have e: "r empty_futureVal = None" "pipes empty_futureVal = []"
    by (simp_all add: empty_futureVal_def)
  have c: "calls pending_state = []" "length (futures pending_state) = 1"
    by (simp_all add: pending_state_eq)
  show ?thesis
    using Pipe_on_pending_appends_pipe[OF snapshot_pending_state e(1),
        of "[Some (Task 7 (\<lambda>x. None))]"]
    by (simp add: e c)
qed

text \<open>
  C5 (the code does not do this). On a settled Future the loop of \<^verbatim>\<open>Pipe\<close> has no \<^verbatim>\<open>break\<close>:
  each pass finds the Future settled again. For a Future settled with Success 5 and one
  success continuation, \<^verbatim>\<open>Pipe\<close> calls the continuation again and again and never
  returns.
\<close>

theorem Pipe_on_settled_never_returns:
  "Pipe [Some (Task 7 (\<lambda>x. Some 0))] (Some 0)
     (settled_state \<lparr>Result = AInt 5, Typ = RESULT_SUCCESS\<rparr>) = None"
  by (rule Pipe_settled_diverges[OF snapshot_settled_state]) simp_all

text \<open>
  C2 (the code does not do this). \<^verbatim>\<open>OnSuccess(nil)\<close> hands \<^verbatim>\<open>addCallback\<close> an interface
  value that holds a nil \<^verbatim>\<open>func(v interface{})\<close>, which is not the nil interface, so the
  test \<^verbatim>\<open>callback == nil\<close> does not stop it. On a pending Future the nil function is
  appended to \<open>dones\<close> in a new snapshot; on a Future settled with Success the nil
  function is called, which panics.
\<close>

theorem OnSuccess_nil_is_registered:
  "OnSuccess None (Some 0) pending_state =
     Some (Inr (Some 0), install (Some 0) (empty_futureVal\<lparr>dones := [None]\<rparr>) pending_state) \<and>
   snapshot (Some 0) pending_state = Some empty_futureVal \<and>
   snapshot (Some 0) (install (Some 0) (empty_futureVal\<lparr>dones := [None]\<rparr>) pending_state) =
     Some (empty_futureVal\<lparr>dones := [None]\<rparr>) \<and>
   OnSuccess None (Some 0) (settled_state \<lparr>Result = AInt 5, Typ = RESULT_SUCCESS\<rparr>) =
     Some (Inl NilDereference, settled_state \<lparr>Result = AInt 5, Typ = RESULT_SUCCESS\<rparr>)"
proof (intro conjI)
  have "addCallback (Func_v None) CALLBACK_DONE (Some 0) pending_state =
          Some (Inr (), install (Some 0) (empty_futureVal\<lparr>dones := [None]\<rparr>) pending_state)"
    by (rule addCallback_pending[OF snapshot_pending_state])
       (simp_all add: empty_futureVal_def append_callback_def assert_funcV_def)
  then show "OnSuccess None (Some 0) pending_state =
     Some (Inr (Some 0), install (Some 0) (empty_futureVal\<lparr>dones := [None]\<rparr>) pending_state)"
    by (simp add: OnSuccess_def returning_def)
next
  show "snapshot (Some 0) pending_state = Some empty_futureVal"
    by (rule snapshot_pending_state)
next
  show "snapshot (Some 0) (install (Some 0) (empty_futureVal\<lparr>dones := [None]\<rparr>) pending_state) =
     Some (empty_futureVal\<lparr>dones := [None]\<rparr>)"
    by (rule snapshot_install[OF snapshot_pending_state])
next
  have "addCallback (Func_v None) CALLBACK_DONE (Some 0)
          (settled_state \<lparr>Result = AInt 5, Typ = RESULT_SUCCESS\<rparr>) =
        Some (call_funcV None (AInt 5) (settled_state \<lparr>Result = AInt 5, Typ = RESULT_SUCCESS\<rparr>))"
    using addCallback_settled_funcV[OF snapshot_settled_state, where t = CALLBACK_DONE and cb = None
        and res = "\<lparr>Result = AInt 5, Typ = RESULT_SUCCESS\<rparr>"]
    by simp
  then show "OnSuccess None (Some 0) (settled_state \<lparr>Result = AInt 5, Typ = RESULT_SUCCESS\<rparr>) =
     Some (Inl NilDereference, settled_state \<lparr>Result = AInt 5, Typ = RESULT_SUCCESS\<rparr>)"
    by (simp add: OnSuccess_def returning_def call_funcV_def)
qed

text \<open>
  C1 (as amended). \<^verbatim>\<open>Pipe\<close> with no callback, with a single nil callback, or with nil
  first and second callbacks returns the receiver and leaves the whole state as it was;
  the second result \<open>ok\<close> is false, since the early \<^verbatim>\<open>return\<close> comes before \<^verbatim>\<open>ok = true\<close>.
\<close>

theorem Pipe_without_continuation:
  assumes "callbacks = [] \<or> callbacks = [None] \<or>
           (length callbacks > 1 \<and> callbacks ! 0 = None \<and> callbacks ! 1 = None)"
  shows "Pipe callbacks this s = Some (Inr (this, False), s)"
  using assms by (auto simp: Pipe_def)

theorem Pipe_without_continuation_witness:
  "Pipe [] (Some 0) pending_state = Some (Inr (Some 0, False), pending_state) \<and>
   Pipe [None] (Some 0) pending_state = Some (Inr (Some 0, False), pending_state) \<and>
   Pipe [None, None] (Some 0) pending_state = Some (Inr (Some 0, False), pending_state)"
  using Pipe_without_continuation[of "[]" "Some 0" pending_state]
    Pipe_without_continuation[of "[None]" "Some 0" pending_state]
    Pipe_without_continuation[of "[None, None]" "Some 0" pending_state]
  by simp

text \<open>
  C1 as stated fails: \<^verbatim>\<open>Pipe()\<close> on a pending Future returns the receiver with
  \<open>ok = false\<close>, not with \<open>ok = true\<close>.
\<close>

theorem Pipe_without_continuation_ok_is_false:
  "Pipe [] (Some 0) pending_state = Some (Inr (Some 0, False), pending_state) \<and>
   Pipe [] (Some 0) pending_state \<noteq> Some (Inr (Some 0, True), pending_state)"
  by (simp add: Pipe_def)

text \<open>
  C9. On a pending Future, when the timer case of the \<^verbatim>\<open>select\<close> runs, \<^verbatim>\<open>GetOrTimeout\<close>
  returns \<open>(nil, nil, true)\<close>; for the argument 0 the timer is armed with 10 nanoseconds,
  which is not 0. When the Promise is settled after that call, with any Result, a \<^verbatim>\<open>Get\<close>
  on the same Future returns the pair of that Result, a \<^verbatim>\<open>GetOrTimeout\<close> whose channel case
  runs returns the same pair with \<open>false\<close>, and one whose timer case runs again returns
  \<open>(nil, nil, true)\<close>.
\<close>

theorem GetOrTimeout_timer_first:
  assumes "snapshot this s = Some fv" and "r fv = None"
  shows "(let d = (if mm = 0 then 10 else mm * 1000 * 1000);
              s1 = s\<lparr>calls := calls s @ [Time_After d]\<rparr>
          in GetOrTimeout Case_time_After mm this s = Some (Inr (ANil, ANil, True), s1) \<and>
             (mm = 0 \<longrightarrow> d = 10 \<and> d \<noteq> 0) \<and>
             (\<exists>x s2 v e.
                settle res \<lparr>Future = this\<rparr> s1 = Some (x, s2) \<and>
                getFutureReturnVal (Some res) = Inr (v, e) \<and>
                map_option fst (Get this s2) = Some (Inr (v, e)) \<and>
                map_option fst (GetOrTimeout Case_chEnd mm2 this s2) = Some (Inr (v, e, False)) \<and>
                map_option fst (GetOrTimeout Case_time_After mm2 this s2) =
                  Some (Inr (ANil, ANil, True))))"
proof -
  let ?d = "if mm = 0 then 10 else mm * 1000 * 1000"
  let ?s1 = "s\<lparr>calls := calls s @ [Time_After ?d]\<rparr>"
  obtain a f p where a: "this = Some a" "a < length (futures s)" "futures s ! a = f"
    "val f = Some p" "p < length (futureVals s)" "futureVals s ! p = fv"
    using assms(1) by (rule snapshot_SomeD)
  have d: "deref_Future this s = Inr f" using a by (simp add: deref_Future_def)
  have 1: "GetOrTimeout Case_time_After mm this s = Some (Inr (ANil, ANil, True), ?s1)"
    using d by (simp add: GetOrTimeout_def Let_def)
  have snap1: "snapshot this ?s1 = Some fv" using assms(1) by simp
  from settle_pending[OF snap1 assms(2), of res]
  obtain x s2 f2 where s2: "settle res \<lparr>Future = this\<rparr> ?s1 = Some (x, s2)"
    "snapshot this s2 = Some (empty_futureVal\<lparr>r := Some res\<rparr>)"
    "deref_Future this s2 = Inr f2" "closed (chEnd f2)"
    by blast
  obtain v e where ve: "getFutureReturnVal (Some res) = Inr (v, e)"
    by (cases "Typ res") (simp_all add: getFutureReturnVal_def)
  have rr: "r (empty_futureVal\<lparr>r := Some res\<rparr>) = Some res" by simp
  have g: "map_option fst (Get this s2) = Some (Inr (v, e))"
    using recv_chEnd_then_result_settled[OF s2(2) rr s2(3,4)] ve by (simp add: Get_def)
  have g2: "map_option fst (GetOrTimeout Case_chEnd mm2 this s2) = Some (Inr (v, e, False))"
  proof -
    let ?t = "s2\<lparr>calls := calls s2 @ [Time_After (if mm2 = 0 then 10 else mm2 * 1000 * 1000)]\<rparr>"
    have "map_option fst (recv_chEnd_then_result this ?t) = Some (Inr (v, e))"
      using recv_chEnd_then_result_settled[of this ?t "empty_futureVal\<lparr>r := Some res\<rparr>" res f2]
        s2(2,3,4) ve by simp
    then obtain t' where "recv_chEnd_then_result this ?t = Some (Inr (v, e), t')"
      by (cases "recv_chEnd_then_result this ?t") auto
    then show ?thesis
      using s2(3) by (simp add: GetOrTimeout_def Let_def)
  qed
  have g3: "map_option fst (GetOrTimeout Case_time_After mm2 this s2) = Some (Inr (ANil, ANil, True))"
    using s2(3) by (simp add: GetOrTimeout_def Let_def)
  from 1 s2(1) ve g g2 g3 show ?thesis
    by (simp add: Let_def)
qed

theorem GetOrTimeout_timer_first_witness:
  "snapshot (Some 0) pending_state = Some empty_futureVal \<and> r empty_futureVal = None \<and>
   GetOrTimeout Case_time_After 0 (Some 0) pending_state =
     Some (Inr (ANil, ANil, True), pending_state\<lparr>calls := [Time_After 10]\<rparr>) \<and>
   (\<exists>x s2. Resolve (AInt 5) \<lparr>Future = Some 0\<rparr> (pending_state\<lparr>calls := [Time_After 10]\<rparr>) = Some (x, s2) \<and>
      map_option fst (Get (Some 0) s2) = Some (Inr (AInt 5, ANil)) \<and>
      map_option fst (GetOrTimeout Case_chEnd 7 (Some 0) s2) = Some (Inr (AInt 5, ANil, False)))"
proof -
  have e: "r empty_futureVal = None" by (simp add: empty_futureVal_def)
  have c: "calls pending_state = []" by (simp add: pending_state_eq)
  have gv: "getFutureReturnVal (Some \<lparr>Result = AInt 5, Typ = RESULT_SUCCESS\<rparr>) = Inr (AInt 5, ANil)"
    by (simp add: getFutureReturnVal_def)
  show ?thesis
    using GetOrTimeout_timer_first[OF snapshot_pending_state e, of 0
        "\<lparr>Result = AInt 5, Typ = RESULT_SUCCESS\<rparr>" 7]
    by (auto simp: Let_def c e gv snapshot_pending_state Resolve_def)
qed

end
